theory Spec2Isabelle
  imports Main "HOL-Library.Sublist" "HOL-Library.List_Lexorder" "HOL-Library.Product_Lexorder"
begin

section \<open>Text model\<close>

text \<open>
  A Python \<open>str\<close> is a sequence of Unicode code points. A code point is a natural number,
  a string is a list of them, and Python's \<open><\<close> on strings (code point by code point) is
  the lexicographic order on these lists.
\<close>

type_synonym ustring = "nat list"

text \<open>
  The program calls three services of the Python runtime that are driven by the Unicode
  character database: \<open>unicodedata.normalize("NFKC", s)\<close>, \<open>s.lower()\<close> and the class
  \<open>\w\<close> of the \<open>re\<close> module. They are not code of this program, and their tables are far
  too large to write out, so the model takes them as a parameter. Every function below
  that reaches one of them takes the record as its first argument.
\<close>

record unicode =
  normalize_nfkc :: "ustring \<Rightarrow> ustring"
  str_lower :: "ustring \<Rightarrow> ustring"
  re_word :: "nat \<Rightarrow> bool"

text \<open>
  Whitespace is small enough to write out: \<open>str.isspace\<close>, \<open>str.strip\<close> and the class
  \<open>\s\<close> of \<open>re\<close> all use the same test of CPython, true of exactly these code points.
\<close>

definition isspace :: "nat \<Rightarrow> bool" where
  "isspace c \<longleftrightarrow>
     (0x09 \<le> c \<and> c \<le> 0x0D) \<or> (0x1C \<le> c \<and> c \<le> 0x20) \<or> c = 0x85 \<or> c = 0xA0 \<or>
     c = 0x1680 \<or> (0x2000 \<le> c \<and> c \<le> 0x200A) \<or> c = 0x2028 \<or> c = 0x2029 \<or>
     c = 0x202F \<or> c = 0x205F \<or> c = 0x3000"

text \<open>The line boundaries of \<open>str.splitlines\<close>.\<close>

definition is_linebreak :: "nat \<Rightarrow> bool" where
  "is_linebreak c \<longleftrightarrow>
     c = 0x0A \<or> c = 0x0B \<or> c = 0x0C \<or> c = 0x0D \<or> c = 0x1C \<or> c = 0x1D \<or> c = 0x1E \<or>
     c = 0x85 \<or> c = 0x2028 \<or> c = 0x2029"

text \<open>
  \<open>s.splitlines()\<close>: a line ends at a line boundary, \<open>\r\n\<close> is one boundary, and no
  empty line follows the last boundary.
\<close>

function splitlines :: "ustring \<Rightarrow> ustring list" where
  "splitlines s =
     (if s = [] then []
      else takeWhile (\<lambda>c. \<not> is_linebreak c) s #
        (case dropWhile (\<lambda>c. \<not> is_linebreak c) s of
           [] \<Rightarrow> []
         | c # r \<Rightarrow>
             (case r of
                [] \<Rightarrow> []
              | d # r' \<Rightarrow> if c = 0x0D \<and> d = 0x0A then splitlines r' else splitlines r)))"
  by pat_completeness auto
termination
proof (relation "measure length", goal_cases)
  case 1
  show ?case by simp
next
  case (2 s c r d r')
  have "length (dropWhile (\<lambda>c. \<not> is_linebreak c) s) \<le> length s"
    by (rule length_dropWhile_le)
  with 2 show ?case by simp
next
  case (3 s c r d r')
  have "length (dropWhile (\<lambda>c. \<not> is_linebreak c) s) \<le> length s"
    by (rule length_dropWhile_le)
  with 3 show ?case by simp
qed

declare splitlines.simps [simp del]

text \<open>\<open>s.strip()\<close> removes the whitespace at both ends.\<close>

definition lstrip :: "ustring \<Rightarrow> ustring" where
  "lstrip s = dropWhile isspace s"

definition rstrip :: "ustring \<Rightarrow> ustring" where
  "rstrip s = rev (dropWhile isspace (rev s))"

definition strip :: "ustring \<Rightarrow> ustring" where
  "strip s = rstrip (lstrip s)"

text \<open>
  \<open>re.sub(r"[...]+", repl, s)\<close> for a character class: every maximal run of characters
  of the class is replaced by \<open>repl\<close>.
\<close>

function re_sub_plus :: "(nat \<Rightarrow> bool) \<Rightarrow> ustring \<Rightarrow> ustring \<Rightarrow> ustring" where
  "re_sub_plus P repl [] = []"
| "re_sub_plus P repl (c # s) =
     (if P c then repl @ re_sub_plus P repl (dropWhile P s) else c # re_sub_plus P repl s)"
  by pat_completeness auto
termination
proof (relation "measure (\<lambda>(P, repl, s). length s)", goal_cases)
  case 1
  show ?case by simp
next
  case (2 P repl c s)
  have "length (dropWhile P s) \<le> length s"
    by (rule length_dropWhile_le)
  then show ?case by simp
next
  case (3 P repl c s)
  show ?case by simp
qed

text \<open>\<open>sep.join(xs)\<close>.\<close>

fun join :: "ustring \<Rightarrow> ustring list \<Rightarrow> ustring" where
  "join sep [] = []"
| "join sep [x] = x"
| "join sep (x # y # ys) = x @ sep @ join sep (y # ys)"

text \<open>\<open>needle in hay\<close> on strings: \<open>needle\<close> occurs in \<open>hay\<close> as a contiguous run.\<close>

fun startswith :: "ustring \<Rightarrow> ustring \<Rightarrow> bool" where
  "startswith hay [] = True"
| "startswith [] (n # ns) = False"
| "startswith (h # hs) (n # ns) = (h = n \<and> startswith hs ns)"

fun str_in :: "ustring \<Rightarrow> ustring \<Rightarrow> bool" where
  "str_in needle [] = (needle = [])"
| "str_in needle (h # hs) = (startswith (h # hs) needle \<or> str_in needle hs)"

section \<open>Normalizer\<close>

text \<open>
  The translation table of \<open>main.py\<close>: sixteen CJK and typographic punctuation marks and
  their ASCII replacements. \<open>str.translate\<close> replaces every character that is a key of the
  table by the table's string and leaves every other character alone.
\<close>

definition PUNCT_TRANSLATION :: "(nat \<times> ustring) list" where
  "PUNCT_TRANSLATION =
     [(0xFF0C, [0x2C]), (0x3002, [0x2E]), (0xFF1A, [0x3A]), (0xFF1B, [0x3B]),
      (0xFF1F, [0x3F]), (0xFF01, [0x21]), (0xFF08, [0x28]), (0xFF09, [0x29]),
      (0x3010, [0x5B]), (0x3011, [0x5D]), (0x300A, [0x3C]), (0x300B, [0x3E]),
      (0x201C, [0x22]), (0x201D, [0x22]), (0x2018, [0x27]), (0x2019, [0x27])]"

definition translate :: "(nat \<times> ustring) list \<Rightarrow> ustring \<Rightarrow> ustring" where
  "translate table s =
     concat (map (\<lambda>c. case map_of table c of Some r \<Rightarrow> r | None \<Rightarrow> [c]) s)"

text \<open>
  The loop of \<open>clean_text\<close> over the lines: strip the line, skip it when nothing is
  left, otherwise collapse its runs of whitespace to one space and keep it.
\<close>

fun clean_lines :: "ustring list \<Rightarrow> ustring list" where
  "clean_lines [] = []"
| "clean_lines (line # rest) =
     (let line = strip line
      in if line = [] then clean_lines rest
         else re_sub_plus isspace [0x20] line # clean_lines rest)"

definition clean_text :: "unicode \<Rightarrow> ustring \<Rightarrow> ustring" where
  "clean_text U text =
     (if text = [] then []
      else
        let text = normalize_nfkc U text;
            text = translate PUNCT_TRANSLATION text;
            lines = clean_lines (splitlines text);
            cleaned = join [0x0A] lines
        in str_lower U cleaned)"

text \<open>
  The fold key. The class \<open>[\s\W]\<close> holds a character when it is whitespace or is not a
  word character.
\<close>

definition normalize_for_match :: "unicode \<Rightarrow> ustring \<Rightarrow> ustring" where
  "normalize_for_match U text =
     (let text = normalize_nfkc U text;
          text = translate PUNCT_TRANSLATION text;
          text = str_lower U text
      in re_sub_plus (\<lambda>c. isspace c \<or> \<not> re_word U c) [] text)"

section \<open>Keyword list\<close>

datatype error = FileNotFoundError

text \<open>
  \<open>load_keywords\<close> reads \<open>keywords.txt\<close>. The file is the argument: \<open>None\<close> when the path
  does not exist, otherwise its decoded text. Each line is stripped, and the lines that
  are empty after that are dropped; nothing else is removed.
\<close>

fun keyword_lines :: "ustring list \<Rightarrow> ustring list" where
  "keyword_lines [] = []"
| "keyword_lines (line # rest) =
     (let keyword = strip line
      in if keyword \<noteq> [] then keyword # keyword_lines rest else keyword_lines rest)"

definition load_keywords :: "ustring option \<Rightarrow> error + ustring list" where
  "load_keywords keywords_file =
     (case keywords_file of
        None \<Rightarrow> Inl FileNotFoundError
      | Some content \<Rightarrow> Inr (keyword_lines (splitlines content)))"

section \<open>Matcher\<close>

text \<open>
  A Python \<open>dict\<close> keeps its keys in insertion order: it is an association list whose
  keys are distinct. Assigning to a key replaces the value in place or appends the key.
\<close>

type_synonym ('k, 'v) dict = "('k \<times> 'v) list"

fun dict_set :: "('k, 'v) dict \<Rightarrow> 'k \<Rightarrow> 'v \<Rightarrow> ('k, 'v) dict" where
  "dict_set [] k v = [(k, v)]"
| "dict_set ((a, b) # m) k v = (if a = k then (a, v) # m else (a, b) # dict_set m k v)"

text \<open>The test of one keyword against one document, lines 108 to 110 of \<open>main.py\<close>.\<close>

definition keyword_hit :: "unicode \<Rightarrow> ustring \<Rightarrow> ustring \<Rightarrow> ustring \<times> ustring \<Rightarrow> bool" where
  "keyword_hit U text normalized_text p =
     (case p of (keyword, normalized_keyword) \<Rightarrow>
        str_in (str_lower U keyword) text \<or>
        (normalized_keyword \<noteq> [] \<and> str_in normalized_keyword normalized_text))"

text \<open>The inner loop: \<open>found\<close> grows by one entry for every pair of the list that hits.\<close>

fun scan_keywords ::
  "unicode \<Rightarrow> ustring \<Rightarrow> ustring \<Rightarrow> (ustring \<times> ustring) list \<Rightarrow> ustring list \<Rightarrow> ustring list"
where
  "scan_keywords U text normalized_text [] found = found"
| "scan_keywords U text normalized_text (p # ps) found =
     scan_keywords U text normalized_text ps
       (if keyword_hit U text normalized_text p then found @ [fst p] else found)"

definition normalized_keywords :: "unicode \<Rightarrow> ustring list \<Rightarrow> (ustring \<times> ustring) list" where
  "normalized_keywords U keywords = map (\<lambda>kw. (kw, normalize_for_match U kw)) keywords"

definition match_document :: "unicode \<Rightarrow> ustring list \<Rightarrow> ustring \<Rightarrow> ustring list" where
  "match_document U keywords text =
     scan_keywords U text (normalize_for_match U text) (normalized_keywords U keywords) []"

text \<open>
  \<open>match_keywords\<close> walks the files \<open>cleaned/*.txt\<close> in sorted order. The directory is the
  argument \<open>cleaned\<close>: the stem and the text of every such file, in that order. The result
  is the dictionary the function returns and the files it writes under \<open>keywords/\<close>, each
  named by its stem here.
\<close>

fun match_files ::
  "unicode \<Rightarrow> ustring list \<Rightarrow> (ustring \<times> ustring) list \<Rightarrow>
   (ustring, ustring list) dict \<times> (ustring \<times> ustring) list \<Rightarrow>
   (ustring, ustring list) dict \<times> (ustring \<times> ustring) list"
where
  "match_files U keywords [] acc = acc"
| "match_files U keywords ((stem, text) # rest) (matches_by_teacher, written) =
     (let found = match_document U keywords text
      in match_files U keywords rest
           (dict_set matches_by_teacher stem found, written @ [(stem, join [0x0A] found)]))"

definition match_keywords ::
  "unicode \<Rightarrow> ustring option \<Rightarrow> (ustring \<times> ustring) list \<Rightarrow>
   error + ((ustring, ustring list) dict \<times> (ustring \<times> ustring) list)"
where
  "match_keywords U keywords_file cleaned =
     (case load_keywords keywords_file of
        Inl e \<Rightarrow> Inl e
      | Inr keywords \<Rightarrow> Inr (match_files U keywords cleaned ([], [])))"

section \<open>Aggregator\<close>

text \<open>
  A \<open>Counter\<close> is a dictionary of counts whose missing keys read as 0. Iterating over
  \<open>set(matches)\<close> visits every distinct element once; \<open>remdups\<close> is one such order, and the
  outputs below look the counts up by key or sort them, so the order does not show.
\<close>

definition counter_get :: "(ustring, nat) dict \<Rightarrow> ustring \<Rightarrow> nat" where
  "counter_get counts k = (case map_of counts k of Some n \<Rightarrow> n | None \<Rightarrow> 0)"

definition counter_add :: "(ustring, nat) dict \<Rightarrow> ustring \<Rightarrow> (ustring, nat) dict" where
  "counter_add counts k = dict_set counts k (counter_get counts k + 1)"

definition count_keywords :: "(ustring, ustring list) dict \<Rightarrow> (ustring, nat) dict" where
  "count_keywords matches_by_teacher =
     fold (\<lambda>(teacher, matches) counts. fold (\<lambda>keyword counts. counter_add counts keyword)
             (remdups matches) counts)
       matches_by_teacher []"

text \<open>\<open>str(n)\<close> for a count, as the f-strings print it.\<close>

function str_nat :: "nat \<Rightarrow> ustring" where
  "str_nat n = (if n < 10 then [0x30 + n] else str_nat (n div 10) @ [0x30 + n mod 10])"
  by pat_completeness auto
termination
  by (relation "measure (\<lambda>n. n)") auto

declare str_nat.simps [simp del]

definition format_count :: "ustring \<times> nat \<Rightarrow> ustring" where
  "format_count p = (case p of (name, count) \<Rightarrow> name @ [0x3A, 0x20] @ str_nat count)"

text \<open>The key of both rankings: count descending, then name ascending.\<close>

definition rank_key :: "ustring \<times> nat \<Rightarrow> int \<times> ustring" where
  "rank_key item = (- int (snd item), fst item)"

definition teacher_counts :: "(ustring, ustring list) dict \<Rightarrow> (ustring, nat) dict" where
  "teacher_counts matches_by_teacher =
     map (\<lambda>(teacher, matches). (teacher, length (remdups matches))) matches_by_teacher"

definition top_teachers :: "(ustring, ustring list) dict \<Rightarrow> (ustring \<times> nat) list" where
  "top_teachers matches_by_teacher = take 3 (sort_key rank_key (teacher_counts matches_by_teacher))"

definition no_match :: "(ustring, ustring list) dict \<Rightarrow> ustring list" where
  "no_match matches_by_teacher =
     sort (map fst (filter (\<lambda>(teacher, count). count = 0) (teacher_counts matches_by_teacher)))"

text \<open>The fixed texts of the report.\<close>

definition HEADER_KEYWORDS :: ustring where
  "HEADER_KEYWORDS = [0x5B, 0x5173, 0x952E, 0x8BCD, 0x547D, 0x4E2D, 0x7EDF, 0x8BA1, 0x5D]"

definition HEADER_TOP3 :: ustring where
  "HEADER_TOP3 =
     [0x5B, 0x547D, 0x4E2D, 0x5173, 0x952E, 0x8BCD, 0x6700, 0x591A, 0x7684, 0x6559, 0x5E08,
      0x20, 0x54, 0x6F, 0x70, 0x33, 0x5D]"

definition HEADER_NO_MATCH :: ustring where
  "HEADER_NO_MATCH =
     [0x5B, 0x672A, 0x547D, 0x4E2D, 0x4EFB, 0x4F55, 0x5173, 0x952E, 0x8BCD, 0x7684, 0x6559,
      0x5E08, 0x5D]"

definition NONE_TEXT :: ustring where
  "NONE_TEXT = [0x65E0]"

definition NO_TEACHER_TEXT :: ustring where
  "NO_TEACHER_TEXT = [0x65E0, 0x5339, 0x914D, 0x6559, 0x5E08]"

text \<open>The three sections of the report, as the lines \<open>build_summary\<close> appends.\<close>

definition keyword_section :: "ustring list \<Rightarrow> (ustring, ustring list) dict \<Rightarrow> ustring list" where
  "keyword_section keywords matches_by_teacher =
     map (\<lambda>keyword. format_count (keyword, counter_get (count_keywords matches_by_teacher) keyword))
       keywords"

definition top_section :: "(ustring, ustring list) dict \<Rightarrow> ustring list" where
  "top_section matches_by_teacher =
     (if top_teachers matches_by_teacher \<noteq> []
      then map format_count (top_teachers matches_by_teacher)
      else [NONE_TEXT])"

definition no_match_section :: "(ustring, ustring list) dict \<Rightarrow> ustring list" where
  "no_match_section matches_by_teacher =
     (if no_match matches_by_teacher \<noteq> [] then no_match matches_by_teacher else [NONE_TEXT])"

definition summary_lines :: "ustring list \<Rightarrow> (ustring, ustring list) dict \<Rightarrow> ustring list" where
  "summary_lines keywords matches_by_teacher =
     [HEADER_KEYWORDS] @ keyword_section keywords matches_by_teacher @
     [[], HEADER_TOP3] @ top_section matches_by_teacher @
     [[], HEADER_NO_MATCH] @ no_match_section matches_by_teacher"

definition build_summary :: "ustring option \<Rightarrow> (ustring, ustring list) dict \<Rightarrow> error + ustring" where
  "build_summary keywords_file matches_by_teacher =
     (case load_keywords keywords_file of
        Inl e \<Rightarrow> Inl e
      | Inr keywords \<Rightarrow> Inr (join [0x0A] (summary_lines keywords matches_by_teacher) @ [0x0A]))"

section \<open>Queries\<close>

text \<open>
  Both queries print lines; the model returns the lines printed. In \<open>list_keywords\<close> the
  ranking \<open>ordered\<close> is computed from the counter before the keywords without a hit are
  entered into it with 0.
\<close>

fun add_missing :: "(ustring, nat) dict \<Rightarrow> ustring list \<Rightarrow> (ustring, nat) dict" where
  "add_missing counts [] = counts"
| "add_missing counts (keyword # rest) =
     add_missing (if keyword \<notin> fst ` set counts then dict_set counts keyword 0 else counts) rest"

definition list_keywords_ordered ::
  "ustring list \<Rightarrow> (ustring, ustring list) dict \<Rightarrow> (ustring \<times> nat) list"
where
  "list_keywords_ordered keywords matches_by_teacher =
     (let counts = count_keywords matches_by_teacher;
          ordered = sort_key rank_key counts;
          counts = add_missing counts keywords
      in if ordered = [] then map (\<lambda>keyword. (keyword, counter_get counts keyword)) keywords
         else ordered)"

definition list_keywords ::
  "ustring option \<Rightarrow> (ustring, ustring list) dict \<Rightarrow> error + ustring list"
where
  "list_keywords keywords_file matches_by_teacher =
     (case load_keywords keywords_file of
        Inl e \<Rightarrow> Inl e
      | Inr keywords \<Rightarrow> Inr (map format_count (list_keywords_ordered keywords matches_by_teacher)))"

definition search_keyword :: "ustring \<Rightarrow> (ustring, ustring list) dict \<Rightarrow> ustring list" where
  "search_keyword keyword matches_by_teacher =
     (let teachers =
            sort (map fst (filter (\<lambda>(teacher, matches). keyword \<in> set matches) matches_by_teacher))
      in if teachers \<noteq> [] then teachers else [NO_TEACHER_TEXT])"

section \<open>What the proofs use of the runtime\<close>

text \<open>
  The facts about CPython's \<open>str.lower\<close> and \<open>unicodedata.normalize\<close> that the theorems
  below take as hypotheses. Each holds of CPython (3.11, Unicode 14).

  \<^item> \<open>str.lower\<close> maps the string character by character, and only the capital sigma
    looks at its neighbours, through characters that are cased or case-ignorable. No
    whitespace character is cased or case-ignorable, and each is its own lowercase: the
    lowercase of a text is the lowercase of the parts between its whitespace, with the
    whitespace left in place.
  \<^item> The lowercase of a character that is not whitespace has at least one character and
    no whitespace.
  \<^item> No key of the punctuation table is the lowercase of anything else.
  \<^item> Lowercasing twice is lowercasing once.
  \<^item> NFKC maps a whitespace character to itself or to the space, and no whitespace
    character combines with a neighbour.
\<close>

definition lower_keeps_whitespace :: "unicode \<Rightarrow> bool" where
  "lower_keeps_whitespace U \<longleftrightarrow>
     str_lower U [] = [] \<and>
     (\<forall>a c b. isspace c \<longrightarrow> str_lower U (a @ c # b) = str_lower U a @ c # str_lower U b)"

definition lower_keeps_words :: "unicode \<Rightarrow> bool" where
  "lower_keeps_words U \<longleftrightarrow>
     (\<forall>w. w \<noteq> [] \<and> (\<forall>c \<in> set w. \<not> isspace c) \<longrightarrow>
        str_lower U w \<noteq> [] \<and> (\<forall>c \<in> set (str_lower U w). \<not> isspace c))"

definition lower_adds_no_punct :: "unicode \<Rightarrow> bool" where
  "lower_adds_no_punct U \<longleftrightarrow>
     (\<forall>s. (\<forall>c \<in> set s. c \<notin> fst ` set PUNCT_TRANSLATION) \<longrightarrow>
        (\<forall>c \<in> set (str_lower U s). c \<notin> fst ` set PUNCT_TRANSLATION))"

definition lower_idempotent :: "unicode \<Rightarrow> bool" where
  "lower_idempotent U \<longleftrightarrow> (\<forall>s. str_lower U (str_lower U s) = str_lower U s)"

definition nfkc_keeps_whitespace :: "unicode \<Rightarrow> bool" where
  "nfkc_keeps_whitespace U \<longleftrightarrow>
     (\<forall>s. (\<forall>c \<in> set s. isspace c) \<longrightarrow> (\<forall>c \<in> set (normalize_nfkc U s). isspace c))"

text \<open>
  A fragment of the Unicode tables, for evaluating the program on concrete texts. It
  agrees with CPython on every string over ASCII, the CJK unified ideographs U+4E00 to
  U+9FFF, U+01F0 (small j with caron) and U+030C (combining caron), as long as U+030C
  follows only \<open>J\<close>, \<open>j\<close>, a space, U+01F0 or another U+030C, or starts the string. There
  NFKC does one thing, composing \<open>j\<close> and a following caron to U+01F0 (no capital J with
  caron exists, so \<open>J\<close> and the caron stay two characters); lowercasing touches the letters
  A to Z only; and the word characters are the ASCII letters, digits and underscore,
  U+01F0 and the ideographs, not the combining caron.
\<close>

fun compose_caron :: "ustring \<Rightarrow> ustring" where
  "compose_caron (a # b # s) =
     (if a = 0x6A \<and> b = 0x30C then 0x1F0 # compose_caron s else a # compose_caron (b # s))"
| "compose_caron s = s"

definition ascii_lower :: "nat \<Rightarrow> nat" where
  "ascii_lower c = (if 0x41 \<le> c \<and> c \<le> 0x5A then c + 0x20 else c)"

definition fragment_word :: "nat \<Rightarrow> bool" where
  "fragment_word c \<longleftrightarrow>
     (0x30 \<le> c \<and> c \<le> 0x39) \<or> (0x41 \<le> c \<and> c \<le> 0x5A) \<or> c = 0x5F \<or>
     (0x61 \<le> c \<and> c \<le> 0x7A) \<or> c = 0x1F0 \<or> (0x4E00 \<le> c \<and> c \<le> 0x9FFF)"

definition unicode_fragment :: unicode where
  "unicode_fragment =
     \<lparr>normalize_nfkc = compose_caron, str_lower = map ascii_lower, re_word = fragment_word\<rparr>"

section \<open>Words\<close>

text \<open>
  The words of a text are its maximal runs of characters that are not whitespace (what
  \<open>s.split()\<close> returns). The program does not compute them; the proofs measure both
  normalizations by what they do to the words.
\<close>

function words :: "ustring \<Rightarrow> ustring list" where
  "words s =
     (case dropWhile isspace s of
        [] \<Rightarrow> []
      | c # r \<Rightarrow> (c # takeWhile (\<lambda>x. \<not> isspace x) r) # words (dropWhile (\<lambda>x. \<not> isspace x) r))"
  by pat_completeness auto
termination
proof (relation "measure length", goal_cases)
  case 1
  show ?case by simp
next
  case (2 s c r)
  have "length (dropWhile (\<lambda>x. \<not> isspace x) r) \<le> length r"
    by (rule length_dropWhile_le)
  moreover have "length (dropWhile isspace s) \<le> length s"
    by (rule length_dropWhile_le)
  ultimately show ?case using 2 by simp
qed

declare words.simps [simp del]

text \<open>
  A line of a cleaned text is a list of words joined by single spaces: the list is not
  empty, and neither is any word, and no word holds whitespace.
\<close>

definition good_words :: "ustring list \<Rightarrow> bool" where
  "good_words ws \<longleftrightarrow> ws \<noteq> [] \<and> (\<forall>w \<in> set ws. w \<noteq> [] \<and> (\<forall>c \<in> set w. \<not> isspace c))"

section \<open>Inserted whitespace\<close>

text \<open>
  \<open>ws_inserted t t'\<close>: the text \<open>t'\<close> is \<open>t\<close> with whitespace characters inserted, any
  number of them at any place.
\<close>

fun ws_inserted :: "ustring \<Rightarrow> ustring \<Rightarrow> bool" where
  "ws_inserted [] t' = list_all isspace t'"
| "ws_inserted (c # t) [] = False"
| "ws_inserted (c # t) (d # t') =
     ((c = d \<and> ws_inserted t t') \<or> (isspace d \<and> ws_inserted (c # t) t'))"

section \<open>Subjects of the ranking scenario\<close>

text \<open>The three subject keys of the scenario, one ideograph each: U+7532, U+4E59, U+4E19.\<close>

definition JIA :: ustring where "JIA = [0x7532]"

definition YI :: ustring where "YI = [0x4E59]"

definition BING :: ustring where "BING = [0x4E19]"

section \<open>Properties\<close>

subsection \<open>Evaluation on concrete texts\<close>

lemma splitlines_Nil [simp]: "splitlines [] = []"
  by (simp add: splitlines.simps)

lemma splitlines_Cons:
  "splitlines (a # s) =
     takeWhile (\<lambda>c. \<not> is_linebreak c) (a # s) #
        (case dropWhile (\<lambda>c. \<not> is_linebreak c) (a # s) of
           [] \<Rightarrow> []
         | c # r \<Rightarrow>
             (case r of
                [] \<Rightarrow> []
              | d # r' \<Rightarrow> if c = 0x0D \<and> d = 0x0A then splitlines r' else splitlines r))"
  by (subst splitlines.simps) simp

lemma str_nat_digit: "n < 10 \<Longrightarrow> str_nat n = [0x30 + n]"
  by (simp add: str_nat.simps)

lemmas text_eval =
  isspace_def is_linebreak_def lstrip_def rstrip_def strip_def translate_def
  PUNCT_TRANSLATION_def clean_text_def normalize_for_match_def Let_def
  unicode_fragment_def ascii_lower_def fragment_word_def splitlines_Cons
  match_document_def normalized_keywords_def keyword_hit_def
  load_keywords_def match_keywords_def

lemmas report_eval =
  count_keywords_def counter_add_def counter_get_def format_count_def rank_key_def
  teacher_counts_def top_teachers_def no_match_def keyword_section_def top_section_def
  no_match_section_def summary_lines_def build_summary_def list_keywords_ordered_def
  list_keywords_def search_keyword_def str_nat_digit
  less_eq_list_code less_list_code

subsection \<open>Substring test\<close>

lemma startswith_prefix: "startswith hay needle \<longleftrightarrow> prefix needle hay"
  by (induction hay needle rule: startswith.induct) auto

lemma str_in_sublist: "str_in needle hay \<longleftrightarrow> sublist needle hay"
proof (induction hay)
  case Nil
  show ?case by simp
next
  case (Cons h hs)
  show ?case
    by (simp add: Cons.IH startswith_prefix sublist_Cons_right)
qed

subsection \<open>Matcher\<close>

lemma scan_keywords_filter:
  "scan_keywords U text ntext ps found = found @ map fst (filter (keyword_hit U text ntext) ps)"
  by (induction ps arbitrary: found) simp_all

lemma match_document_filter:
  "match_document U kws text =
     filter (\<lambda>kw. sublist (str_lower U kw) text \<or>
                   (normalize_for_match U kw \<noteq> [] \<and>
                    sublist (normalize_for_match U kw) (normalize_for_match U text))) kws"
  by (induction kws)
    (simp_all add: match_document_def normalized_keywords_def scan_keywords_filter
      keyword_hit_def str_in_sublist filter_map comp_def)

text \<open>
  Claim C1. A keyword of the list is among the keywords reported for a document exactly
  when (a) its lowercase is a contiguous part of the document's text, or (b) its fold
  key is not empty and is a contiguous part of the fold key of the text. A keyword with
  an empty fold key is reported exactly when (a) holds.
\<close>

theorem matcher_reports_iff:
  assumes "keyword \<in> set kws"
  shows "(keyword \<in> set (match_document U kws text) \<longleftrightarrow>
           sublist (str_lower U keyword) text \<or>
           (normalize_for_match U keyword \<noteq> [] \<and>
            sublist (normalize_for_match U keyword) (normalize_for_match U text))) \<and>
         (normalize_for_match U keyword = [] \<longrightarrow>
           (keyword \<in> set (match_document U kws text) \<longleftrightarrow>
              sublist (str_lower U keyword) text))"
  using assms by (simp add: match_document_filter)

text \<open>
  C1 at a concrete input: the keywords \<open>A\<close> and \<open>-\<close> against the text \<open>xa\<close>. \<open>A\<close> is
  reported through (a); the fold key of \<open>-\<close> is empty, (a) fails for it, and it is not
  reported.
\<close>

theorem matcher_reports_iff_witness:
  "[0x41] \<in> set [[0x41], [0x2D]] \<and>
   [0x41] \<in> set (match_document unicode_fragment [[0x41], [0x2D]] [0x78, 0x61]) \<and>
   sublist (str_lower unicode_fragment [0x41]) [0x78, 0x61] \<and>
   normalize_for_match unicode_fragment [0x2D] = [] \<and>
   [0x2D] \<notin> set (match_document unicode_fragment [[0x41], [0x2D]] [0x78, 0x61])"
proof -
  have a: "[0x41] \<in> set [[0x41], [0x2D::nat]]" by simp
  have l: "str_lower unicode_fragment [0x41] = [0x61]"
    by (simp add: text_eval)
  have s: "sublist [0x61::nat] [0x78, 0x61]"
    by (simp add: sublist_code prefix_code)
  have n: "normalize_for_match unicode_fragment [0x2D] = []"
    by (simp add: text_eval)
  have d: "\<not> sublist (str_lower unicode_fragment [0x2D]) [0x78, 0x61]"
    by (simp add: text_eval sublist_code prefix_code)
  have b: "[0x2D] \<in> set [[0x41], [0x2D::nat]]" by simp
  from matcher_reports_iff [OF a, of unicode_fragment "[0x78, 0x61]"]
       matcher_reports_iff [OF b, of unicode_fragment "[0x78, 0x61]"] l s n d
  show ?thesis by simp
qed

text \<open>
  Claim C2 fails on the code. With \<open>keywords.txt\<close> holding \<open>A\<close>, \<open>B\<close>, \<open>A\<close> and one cleaned
  document \<open>t\<close> with the text \<open>a\<close>, the dictionary returned and the file written both
  hold \<open>A\<close> twice.
\<close>

theorem duplicate_keywords_counterexample:
  "match_keywords unicode_fragment (Some [0x41, 0x0A, 0x42, 0x0A, 0x41, 0x0A]) [([0x74], [0x61])]
     = Inr ([([0x74], [[0x41], [0x41]])], [([0x74], [0x41, 0x0A, 0x41])]) \<and>
   count_list (match_document unicode_fragment [[0x41], [0x42], [0x41]] [0x61]) [0x41] \<noteq> 1"
  by (simp add: text_eval)

lemma count_list_filter:
  "count_list (filter P xs) x = (if P x then count_list xs x else 0)"
  by (induction xs) auto

lemma map_of_dict_set:
  "map_of (dict_set m k v) k' = (if k' = k then Some v else map_of m k')"
  by (induction m k v rule: dict_set.induct) auto

lemma counter_get_add:
  "counter_get (counter_add counts k) k' = counter_get counts k' + (if k' = k then 1 else 0)"
  by (simp add: counter_add_def counter_get_def map_of_dict_set)

lemma counter_get_fold_add:
  "counter_get (fold (\<lambda>keyword counts. counter_add counts keyword) xs counts) k =
     counter_get counts k + count_list xs k"
  by (induction xs arbitrary: counts) (simp_all add: counter_get_add)

lemma count_list_remdups: "count_list (remdups xs) k = (if k \<in> set xs then 1 else 0)"
  by (induction xs) auto

lemma counter_get_fold_documents:
  "counter_get
     (fold (\<lambda>(teacher, found) counts.
              fold (\<lambda>keyword counts. counter_add counts keyword) (remdups found) counts)
        m counts) k =
   counter_get counts k + length (filter (\<lambda>(teacher, found). k \<in> set found) m)"
proof (induction m arbitrary: counts)
  case Nil
  show ?case by simp
next
  case (Cons p m)
  obtain teacher found where p: "p = (teacher, found)" by (cases p)
  show ?case
    by (simp add: p Cons.IH counter_get_fold_add count_list_remdups)
qed

lemma counter_get_count_keywords:
  "counter_get (count_keywords m) k = length (filter (\<lambda>(teacher, found). k \<in> set found) m)"
proof -
  have "counter_get ([] :: (ustring, nat) dict) k = 0"
    by (simp add: counter_get_def)
  with counter_get_fold_documents [of m "[]" k] show ?thesis
    unfolding count_keywords_def by simp
qed

text \<open>
  Claim C2 as the code has it. The matcher removes nothing: the keywords reported for a
  document are the keyword list with the entries that do not match left out, in list
  order, so a keyword that matches is reported as many times as it occurs in the list and
  a keyword that does not match is not reported. Only the aggregator counts a keyword
  once per document: the hit count of a keyword is the number of entries of the match
  records whose list holds it, however often that list holds it.
\<close>

theorem duplicate_keywords_kept:
  "match_document U kws text =
     filter (\<lambda>kw. sublist (str_lower U kw) text \<or>
                   (normalize_for_match U kw \<noteq> [] \<and>
                    sublist (normalize_for_match U kw) (normalize_for_match U text))) kws \<and>
   count_list (match_document U kws text) keyword =
     (if sublist (str_lower U keyword) text \<or>
         (normalize_for_match U keyword \<noteq> [] \<and>
          sublist (normalize_for_match U keyword) (normalize_for_match U text))
      then count_list kws keyword else 0) \<and>
   counter_get (count_keywords m) keyword =
     length (filter (\<lambda>(teacher, found). keyword \<in> set found) m)"
proof (intro conjI)
  show "match_document U kws text =
     filter (\<lambda>kw. sublist (str_lower U kw) text \<or>
                   (normalize_for_match U kw \<noteq> [] \<and>
                    sublist (normalize_for_match U kw) (normalize_for_match U text))) kws"
    by (rule match_document_filter)
  show "count_list (match_document U kws text) keyword =
     (if sublist (str_lower U keyword) text \<or>
         (normalize_for_match U keyword \<noteq> [] \<and>
          sublist (normalize_for_match U keyword) (normalize_for_match U text))
      then count_list kws keyword else 0)"
    by (simp only: match_document_filter count_list_filter)
  show "counter_get (count_keywords m) keyword =
     length (filter (\<lambda>(teacher, found). keyword \<in> set found) m)"
    by (rule counter_get_count_keywords)
qed

text \<open>
  C2 at the keyword list \<open>A\<close>, \<open>B\<close>, \<open>A\<close>, \<open>X\<close> and the text \<open>ba\<close>: the matcher reports
  \<open>A\<close>, \<open>B\<close>, \<open>A\<close>. For two subjects with the lists \<open>A\<close>, \<open>B\<close>, \<open>A\<close> and \<open>B\<close> the hit
  count of \<open>A\<close> is 1 and that of \<open>B\<close> is 2.
\<close>

theorem duplicate_keywords_kept_witness:
  "match_document unicode_fragment [[0x41], [0x42], [0x41], [0x58]] [0x62, 0x61] = [[0x41], [0x42], [0x41]] \<and>
   count_list (match_document unicode_fragment [[0x41], [0x42], [0x41], [0x58]] [0x62, 0x61]) [0x41] = 2 \<and>
   counter_get (count_keywords [([0x74], [[0x41], [0x42], [0x41]]), ([0x73], [[0x42]])]) [0x41] = 1 \<and>
   counter_get (count_keywords [([0x74], [[0x41], [0x42], [0x41]]), ([0x73], [[0x42]])]) [0x42] = 2"
proof -
  let ?kws = "[[0x41], [0x42], [0x41], [0x58]] :: ustring list"
  let ?m = "[([0x74], [[0x41], [0x42], [0x41]]), ([0x73], [[0x42]])] :: (ustring, ustring list) dict"
  have l: "str_lower unicode_fragment [0x41] = [0x61]" "str_lower unicode_fragment [0x42] = [0x62]"
    "str_lower unicode_fragment [0x58] = [0x78]"
    by (simp_all add: text_eval)
  have n: "normalize_for_match unicode_fragment [0x41] = [0x61]"
    "normalize_for_match unicode_fragment [0x42] = [0x62]"
    "normalize_for_match unicode_fragment [0x58] = [0x78]"
    "normalize_for_match unicode_fragment [0x62, 0x61] = [0x62, 0x61]"
    by (simp_all add: text_eval)
  from duplicate_keywords_kept [of unicode_fragment ?kws "[0x62, 0x61]" "[0x41]" ?m]
  have a: "match_document unicode_fragment ?kws [0x62, 0x61] = [[0x41], [0x42], [0x41]]"
    and b: "count_list (match_document unicode_fragment ?kws [0x62, 0x61]) [0x41] = 2"
    and c: "counter_get (count_keywords ?m) [0x41] = 1"
    by (simp_all add: l n sublist_code prefix_code)
  from duplicate_keywords_kept [of unicode_fragment ?kws "[0x62, 0x61]" "[0x42]" ?m]
  have d: "counter_get (count_keywords ?m) [0x42] = 2"
    by simp
  from a b c d show ?thesis by blast
qed

subsection \<open>Queries\<close>

text \<open>
  Claim C3 against the code. With the keywords \<open>A\<close> and \<open>B\<close> and one subject that matched
  \<open>A\<close>, \<open>list_keywords\<close> prints the single line \<open>A: 1\<close>; the keyword \<open>B\<close>, which has no
  hit, is not listed. The ranking is taken from the counter before the keywords without
  a hit are entered into it.
\<close>

theorem list_keywords_drops_unmatched:
  "list_keywords (Some [0x41, 0x0A, 0x42]) [([0x74], [[0x41]])] = Inr [[0x41, 0x3A, 0x20, 0x31]]"
  by (simp add: text_eval report_eval)

lemma sort_eq_Nil: "sort xs = [] \<longleftrightarrow> xs = []"
  by (metis length_0_conv length_sort)

text \<open>
  Claim C8. When some subject's matched keywords contain the query keyword,
  \<open>search_keyword\<close> prints the subjects that do, in ascending order, each once; when
  none does, whether or not the keyword is in the configured list (which the function
  never reads), it prints the one line that says no subject matches. The function has no
  failing branch.
\<close>

theorem search_keyword_result:
  "((\<exists>(teacher, found) \<in> set m. keyword \<in> set found) \<longrightarrow>
      sorted (search_keyword keyword m) \<and>
      set (search_keyword keyword m) = {teacher. \<exists>found. (teacher, found) \<in> set m \<and> keyword \<in> set found} \<and>
      (distinct (map fst m) \<longrightarrow> distinct (search_keyword keyword m))) \<and>
   (\<not> (\<exists>(teacher, found) \<in> set m. keyword \<in> set found) \<longrightarrow>
      search_keyword keyword m = [NO_TEACHER_TEXT])"
proof -
  let ?hits = "filter (\<lambda>(teacher, found). keyword \<in> set found) m"
  let ?teachers = "sort (map fst ?hits)"
  have h: "?hits = [] \<longleftrightarrow> \<not> (\<exists>(teacher, found) \<in> set m. keyword \<in> set found)"
    by (simp add: filter_empty_conv)
  have e: "?teachers = [] \<longleftrightarrow> ?hits = []"
    by (simp add: sort_eq_Nil)
  have "fst ` {x \<in> set m. case x of (teacher, found) \<Rightarrow> keyword \<in> set found} =
        {teacher. \<exists>found. (teacher, found) \<in> set m \<and> keyword \<in> set found}"
    by force
  then have s: "set ?teachers = {teacher. \<exists>found. (teacher, found) \<in> set m \<and> keyword \<in> set found}"
    by simp
  have d: "distinct (map fst m) \<Longrightarrow> distinct ?teachers"
    by (simp add: distinct_map_filter)
  have o: "sorted ?teachers"
    by simp
  have r: "search_keyword keyword m = (if ?teachers \<noteq> [] then ?teachers else [NO_TEACHER_TEXT])"
    by (simp add: search_keyword_def Let_def)
  show ?thesis
  proof (cases "?hits = []")
    case True
    with e have "?teachers = []" by blast
    with r have "search_keyword keyword m = [NO_TEACHER_TEXT]" by simp
    with h True show ?thesis by blast
  next
    case False
    with e have "?teachers \<noteq> []" by blast
    with r have q: "search_keyword keyword m = ?teachers" by simp
    from h False have "\<exists>(teacher, found) \<in> set m. keyword \<in> set found" by blast
    then show ?thesis
      unfolding q using s d o by blast
  qed
qed

text \<open>
  C8 at three subjects: the keyword \<open>A\<close> is found for \<open>s\<close> and \<open>t\<close>, the keyword \<open>C\<close> for
  none.
\<close>

theorem search_keyword_result_witness:
  "sorted (search_keyword [0x41] [([0x74], [[0x41]]), ([0x73], [[0x42], [0x41]]), ([0x75], [])]) \<and>
   set (search_keyword [0x41] [([0x74], [[0x41]]), ([0x73], [[0x42], [0x41]]), ([0x75], [])])
     = {[0x73], [0x74]} \<and>
   distinct (search_keyword [0x41] [([0x74], [[0x41]]), ([0x73], [[0x42], [0x41]]), ([0x75], [])]) \<and>
   search_keyword [0x43] [([0x74], [[0x41]]), ([0x73], [[0x42], [0x41]]), ([0x75], [])]
     = [NO_TEACHER_TEXT]"
proof -
  let ?m = "[([0x74], [[0x41]]), ([0x73], [[0x42], [0x41]]), ([0x75::nat], [])] :: (ustring, ustring list) dict"
  have a: "\<exists>(teacher, found) \<in> set ?m. [0x41] \<in> set found"
    by simp
  have c: "\<not> (\<exists>(teacher, found) \<in> set ?m. [0x43] \<in> set found)"
    by simp
  have k: "distinct (map fst ?m)"
    by simp
  have h: "{teacher. \<exists>found. (teacher, found) \<in> set ?m \<and> [0x41] \<in> set found} = {[0x73], [0x74]}"
    by auto
  from search_keyword_result [of ?m "[0x41]"] a k h
  have "sorted (search_keyword [0x41] ?m) \<and> set (search_keyword [0x41] ?m) = {[0x73], [0x74]} \<and>
        distinct (search_keyword [0x41] ?m)"
    by simp
  moreover from search_keyword_result [of ?m "[0x43]"] c
  have "search_keyword [0x43] ?m = [NO_TEACHER_TEXT]"
    by blast
  ultimately show ?thesis by blast
qed

subsection \<open>Blank input\<close>

lemma linebreak_isspace: "is_linebreak c \<Longrightarrow> isspace c"
  by (auto simp: is_linebreak_def isspace_def)

lemma isspace_not_punct: "isspace c \<Longrightarrow> c \<notin> fst ` set PUNCT_TRANSLATION"
  by (auto simp: isspace_def PUNCT_TRANSLATION_def)

lemma translate_no_punct:
  "\<forall>c \<in> set s. c \<notin> fst ` set table \<Longrightarrow> translate table s = s"
proof (induction s)
  case Nil
  show ?case by (simp add: translate_def)
next
  case (Cons c s)
  then have "map_of table c = None"
    by (simp add: map_of_eq_None_iff)
  with Cons show ?case
    by (simp add: translate_def)
qed

lemma splitlines_end:
  assumes "s \<noteq> []"
    and "dropWhile (\<lambda>c. \<not> is_linebreak c) s = [] \<or> (\<exists>c. dropWhile (\<lambda>c. \<not> is_linebreak c) s = [c])"
  shows "splitlines s = [takeWhile (\<lambda>c. \<not> is_linebreak c) s]"
  using assms by (subst splitlines.simps) (auto simp del: dropWhile_eq_Nil_conv)

lemma splitlines_step:
  assumes "dropWhile (\<lambda>c. \<not> is_linebreak c) s = c # d # r"
  shows "splitlines s =
           takeWhile (\<lambda>c. \<not> is_linebreak c) s #
             (if c = 0x0D \<and> d = 0x0A then splitlines r else splitlines (d # r))"
proof -
  from assms have "s \<noteq> []" by auto
  with assms show ?thesis
    by (subst splitlines.simps) simp
qed

lemma list_cases3:
  obtains "xs = []" | c where "xs = [c]" | c d r where "xs = c # d # r"
  by (metis neq_Nil_conv)

lemma splitlines_chars: "l \<in> set (splitlines s) \<Longrightarrow> set l \<subseteq> set s"
proof (induction s arbitrary: l rule: length_induct)
  case (1 s)
  let ?t = "takeWhile (\<lambda>c. \<not> is_linebreak c) s"
  let ?d = "dropWhile (\<lambda>c. \<not> is_linebreak c) s"
  have sub: "set ?d \<subseteq> set s"
    by (auto dest: set_dropWhileD)
  have len: "length ?d \<le> length s"
    by (rule length_dropWhile_le)
  have tk: "set ?t \<subseteq> set s"
    by (auto dest: set_takeWhileD)
  consider "s = []" | "s \<noteq> []" "?d = [] \<or> (\<exists>c. ?d = [c])" | c d r where "?d = c # d # r"
    by (rule list_cases3 [of ?d]) blast+
  then show ?case
  proof cases
    case 1
    with "1.prems" show ?thesis by simp
  next
    case 2
    then have "splitlines s = [?t]" by (rule splitlines_end)
    with "1.prems" tk show ?thesis by simp
  next
    case 3
    from 3 len have lr: "length r < length s" "length (d # r) < length s"
      by simp_all
    from 3 sub have sr: "set r \<subseteq> set s" "set (d # r) \<subseteq> set s"
      by auto
    from "1.prems" have "l = ?t \<or> l \<in> set (splitlines r) \<or> l \<in> set (splitlines (d # r))"
      unfolding splitlines_step [OF 3] by (auto split: if_splits)
    with "1.IH" lr have "l = ?t \<or> set l \<subseteq> set r \<or> set l \<subseteq> set (d # r)"
      by blast
    with sr tk show ?thesis by blast
  qed
qed

lemma strip_blank: "\<forall>c \<in> set s. isspace c \<Longrightarrow> strip s = []"
proof -
  assume "\<forall>c \<in> set s. isspace c"
  then have e: "dropWhile isspace s = []" by simp
  show ?thesis
    unfolding strip_def lstrip_def rstrip_def e by simp
qed

lemma clean_lines_blank:
  "\<forall>l \<in> set ls. \<forall>c \<in> set l. isspace c \<Longrightarrow> clean_lines ls = []"
  by (induction ls) (simp_all add: strip_blank)

text \<open>
  Claim C9. \<open>clean_text\<close> is a total function: no step of it can fail on a string, and
  the model has no failing branch. On the empty string and on a string of whitespace
  only it returns the empty string.
\<close>

theorem clean_text_blank:
  assumes "nfkc_keeps_whitespace U" and "str_lower U [] = []"
    and "\<forall>c \<in> set text. isspace c"
  shows "clean_text U text = []"
proof (cases "text = []")
  case True
  then show ?thesis by (simp add: clean_text_def)
next
  case False
  let ?n = "normalize_nfkc U text"
  from assms(1,3) have ws: "\<forall>c \<in> set ?n. isspace c"
    by (simp add: nfkc_keeps_whitespace_def)
  then have "translate PUNCT_TRANSLATION ?n = ?n"
    by (intro translate_no_punct) (blast dest: isspace_not_punct)
  moreover from ws have "clean_lines (splitlines ?n) = []"
    by (intro clean_lines_blank) (blast dest: splitlines_chars)
  ultimately show ?thesis
    using False assms(2) by (simp add: clean_text_def)
qed

lemma compose_caron_blank:
  "\<forall>c \<in> set s. isspace c \<Longrightarrow> compose_caron s = s"
proof (induction s rule: compose_caron.induct)
  case (1 a b s)
  then have "isspace a" by simp
  then have "a \<noteq> 0x6A" by (auto simp: isspace_def)
  with 1 show ?case by simp
qed simp_all

lemma fragment_nfkc_keeps_whitespace: "nfkc_keeps_whitespace unicode_fragment"
  by (simp add: nfkc_keeps_whitespace_def unicode_fragment_def compose_caron_blank)

text \<open>
  C9 at a text of spaces, a tab, line ends, an ideographic space and a no-break space, and
  at the empty text.
\<close>

theorem clean_text_blank_witness:
  "nfkc_keeps_whitespace unicode_fragment \<and> str_lower unicode_fragment [] = [] \<and>
   list_all isspace [0x20, 0x09, 0x0A, 0x3000, 0x0D, 0x0A, 0xA0] \<and>
   clean_text unicode_fragment [0x20, 0x09, 0x0A, 0x3000, 0x0D, 0x0A, 0xA0] = [] \<and>
   clean_text unicode_fragment [] = []"
proof -
  have l: "str_lower unicode_fragment [] = []"
    by (simp add: unicode_fragment_def)
  have w: "\<forall>c \<in> set [0x20, 0x09, 0x0A, 0x3000, 0x0D, 0x0A, 0xA0]. isspace c"
    by (simp add: isspace_def)
  have e: "\<forall>c \<in> set ([] :: ustring). isspace c"
    by simp
  from clean_text_blank [OF fragment_nfkc_keeps_whitespace l w]
       clean_text_blank [OF fragment_nfkc_keeps_whitespace l e]
       fragment_nfkc_keeps_whitespace l w
  show ?thesis unfolding list_all_iff by blast
qed

subsection \<open>Summary\<close>

lemma count_keywords_empty: "counter_get (count_keywords []) keyword = 0"
  by (simp add: count_keywords_def counter_get_def)

text \<open>
  Claim C5 fails on the code in its last part. For an empty corpus and the keyword list
  \<open>A\<close> the report is the text below: the section of the subjects without a match holds
  the same placeholder line as the top-3 section, so the two sections read alike.
\<close>

theorem empty_corpus_counterexample:
  "build_summary (Some [0x41]) [] =
     Inr (HEADER_KEYWORDS @ [0x0A, 0x41, 0x3A, 0x20, 0x30, 0x0A, 0x0A] @
          HEADER_TOP3 @ [0x0A] @ NONE_TEXT @ [0x0A, 0x0A] @
          HEADER_NO_MATCH @ [0x0A] @ NONE_TEXT @ [0x0A]) \<and>
   no_match_section [] = top_section []"
  by (simp add: text_eval report_eval)

text \<open>
  Claim C5 as the code has it. For an empty corpus and any keyword list that loads, the
  report gives every keyword of the list the count 0, in list order, and both the top-3
  section and the section of the subjects without a match consist of the one placeholder
  line, the same text in both.
\<close>

theorem empty_corpus_summary:
  assumes "load_keywords keywords_file = Inr kws"
  shows "build_summary keywords_file [] =
           Inr (join [0x0A]
                  ([HEADER_KEYWORDS] @ map (\<lambda>keyword. keyword @ [0x3A, 0x20, 0x30]) kws @
                   [[], HEADER_TOP3, NONE_TEXT, [], HEADER_NO_MATCH, NONE_TEXT]) @ [0x0A]) \<and>
         top_section [] = [NONE_TEXT] \<and> no_match_section [] = [NONE_TEXT]"
proof -
  have k: "keyword_section kws [] = map (\<lambda>keyword. keyword @ [0x3A, 0x20, 0x30]) kws"
    by (simp add: keyword_section_def count_keywords_empty format_count_def str_nat_digit)
  have t: "top_section [] = [NONE_TEXT]"
    by (simp add: top_section_def top_teachers_def teacher_counts_def)
  have n: "no_match_section [] = [NONE_TEXT]"
    by (simp add: no_match_section_def no_match_def teacher_counts_def)
  from assms k t n show ?thesis
    by (simp add: build_summary_def summary_lines_def)
qed

text \<open>
  C5 at a keyword file with the two lines \<open>A\<close> and \<open>b\<close>.
\<close>

theorem empty_corpus_summary_witness:
  "load_keywords (Some [0x41, 0x0A, 0x62, 0x0A]) = Inr [[0x41], [0x62]] \<and>
   build_summary (Some [0x41, 0x0A, 0x62, 0x0A]) [] =
     Inr (join [0x0A]
            [HEADER_KEYWORDS, [0x41, 0x3A, 0x20, 0x30], [0x62, 0x3A, 0x20, 0x30],
             [], HEADER_TOP3, NONE_TEXT, [], HEADER_NO_MATCH, NONE_TEXT] @ [0x0A])"
proof -
  have l: "load_keywords (Some [0x41, 0x0A, 0x62, 0x0A]) = Inr [[0x41], [0x62]]"
    by (simp add: text_eval)
  from empty_corpus_summary [OF l] l show ?thesis
    by simp
qed

text \<open>
  Claim C4 fails on the code. Python orders strings by code point, and U+4E59 comes
  before U+7532: of the two subjects with two matches, the second of the scenario ranks
  first.
\<close>

theorem top3_tie_counterexample:
  "map fst (top_teachers [(JIA, [[0x41], [0x42]]), (YI, [[0x41], [0x42]]), (BING, [])]) \<noteq> [JIA, YI, BING] \<and>
   top_section [(JIA, [[0x41], [0x42]]), (YI, [[0x41], [0x42]]), (BING, [])] =
     [YI @ [0x3A, 0x20, 0x32], JIA @ [0x3A, 0x20, 0x32], BING @ [0x3A, 0x20, 0x30]]"
  by (simp add: report_eval JIA_def YI_def BING_def)

lemma three_entries:
  assumes "set m = {a, b, c}" and "length m = 3"
  shows "m = [a, b, c] \<or> m = [a, c, b] \<or> m = [b, a, c] \<or> m = [b, c, a] \<or>
         m = [c, a, b] \<or> m = [c, b, a] \<or> card {a, b, c} < 3"
proof -
  from assms(2) obtain x y z where m: "m = [x, y, z]"
    by (auto simp: length_Suc_conv numeral_3_eq_3)
  show ?thesis
  proof (cases "distinct m")
    case False
    then have "card (set m) < length m"
      by (metis card_distinct card_length le_neq_implies_less)
    with assms show ?thesis by simp
  next
    case True
    with m assms(1) have d: "x \<noteq> y" "x \<noteq> z" "y \<noteq> z" and s: "{x, y, z} = {a, b, c}"
      by auto
    from s have "x \<in> {a, b, c}" "y \<in> {a, b, c}" "z \<in> {a, b, c}"
      by auto
    with d m show ?thesis by auto
  qed
qed

lemma rank_three:
  assumes "tc = [(JIA, 2), (YI, 2), (BING, 0)] \<or> tc = [(JIA, 2), (BING, 0), (YI, 2)] \<or>
           tc = [(YI, 2), (JIA, 2), (BING, 0)] \<or> tc = [(YI, 2), (BING, 0), (JIA, 2)] \<or>
           tc = [(BING, 0), (JIA, 2), (YI, 2)] \<or> tc = [(BING, 0), (YI, 2), (JIA, 2)]"
  shows "take 3 (sort_key rank_key tc) = [(YI, 2), (JIA, 2), (BING, 0::nat)] \<and>
         sort (map fst (filter (\<lambda>(teacher, count). count = 0) tc)) = [BING]"
  using assms
  by (elim disjE) (simp_all add: rank_key_def JIA_def YI_def BING_def less_eq_list_code less_list_code)

text \<open>
  Claim C4 as the code has it. For the three subjects of the scenario, in any insertion
  order, with 2, 2 and 0 distinct matched keywords, the top-3 listing is U+4E59, U+7532,
  U+4E19 (count descending, ties by ascending code point), and the list of subjects
  without a match is U+4E19 alone.
\<close>

theorem top3_tie_break:
  assumes "set m = {(JIA, ka), (YI, kb), (BING, kc)}" and "length m = 3"
    and "card (set ka) = 2" and "card (set kb) = 2" and "card (set kc) = 0"
  shows "top_teachers m = [(YI, 2), (JIA, 2), (BING, 0)] \<and> no_match m = [BING] \<and>
         top_section m = [YI @ [0x3A, 0x20, 0x32], JIA @ [0x3A, 0x20, 0x32], BING @ [0x3A, 0x20, 0x30]] \<and>
         no_match_section m = [BING]"
proof -
  let ?a = "(JIA, ka)" and ?b = "(YI, kb)" and ?c = "(BING, kc)"
  let ?f = "\<lambda>(teacher, found :: ustring list). (teacher, length (remdups found))"
  have fa: "?f ?a = (JIA, 2)" and fb: "?f ?b = (YI, 2)" and fc: "?f ?c = (BING, 0)"
    using assms(3-5) by (simp_all add: length_remdups_card_conv)
  have "card {?a, ?b, ?c} = 3"
    by (simp add: JIA_def YI_def BING_def)
  with three_entries [OF assms(1,2)] have
    "m = [?a, ?b, ?c] \<or> m = [?a, ?c, ?b] \<or> m = [?b, ?a, ?c] \<or> m = [?b, ?c, ?a] \<or>
     m = [?c, ?a, ?b] \<or> m = [?c, ?b, ?a]"
    by simp
  then have "map ?f m = [?f ?a, ?f ?b, ?f ?c] \<or> map ?f m = [?f ?a, ?f ?c, ?f ?b] \<or>
     map ?f m = [?f ?b, ?f ?a, ?f ?c] \<or> map ?f m = [?f ?b, ?f ?c, ?f ?a] \<or>
     map ?f m = [?f ?c, ?f ?a, ?f ?b] \<or> map ?f m = [?f ?c, ?f ?b, ?f ?a]"
    by (elim disjE) simp_all
  then have "teacher_counts m = [(JIA, 2), (YI, 2), (BING, 0)] \<or>
     teacher_counts m = [(JIA, 2), (BING, 0), (YI, 2)] \<or>
     teacher_counts m = [(YI, 2), (JIA, 2), (BING, 0)] \<or>
     teacher_counts m = [(YI, 2), (BING, 0), (JIA, 2)] \<or>
     teacher_counts m = [(BING, 0), (JIA, 2), (YI, 2)] \<or>
     teacher_counts m = [(BING, 0), (YI, 2), (JIA, 2)]"
    unfolding teacher_counts_def fa fb fc .
  from rank_three [OF this] have r: "top_teachers m = [(YI, 2), (JIA, 2), (BING, 0)]"
    and n: "no_match m = [BING]"
    by (simp_all add: top_teachers_def no_match_def)
  show ?thesis
    by (simp add: r n top_section_def no_match_section_def format_count_def str_nat_digit)
qed

text \<open>
  C4 at one such dictionary; the second subject's list has a duplicate, which the count
  ignores.
\<close>

theorem top3_tie_break_witness:
  "top_teachers [(JIA, [[0x41], [0x42]]), (YI, [[0x42], [0x41], [0x42]]), (BING, [])]
     = [(YI, 2), (JIA, 2), (BING, 0)] \<and>
   no_match [(JIA, [[0x41], [0x42]]), (YI, [[0x42], [0x41], [0x42]]), (BING, [])] = [BING]"
proof -
  let ?m = "[(JIA, [[0x41], [0x42]]), (YI, [[0x42], [0x41], [0x42]]), (BING, [])] :: (ustring, ustring list) dict"
  have s: "set ?m = {(JIA, [[0x41], [0x42]]), (YI, [[0x42], [0x41], [0x42]]), (BING, [])}"
    by simp
  have l: "length ?m = 3"
    by simp
  have a: "card (set [[0x41], [0x42::nat]]) = 2"
    by simp
  have "set [[0x42], [0x41], [0x42::nat]] = {[0x41], [0x42]}"
    by auto
  then have b: "card (set [[0x42], [0x41], [0x42::nat]]) = 2"
    by simp
  have c: "card (set ([] :: ustring list)) = 0"
    by simp
  from top3_tie_break [OF s l a b c] show ?thesis
    by simp
qed

subsection \<open>Words of a text\<close>

lemma takeWhile_stop: "\<not> P c \<Longrightarrow> takeWhile P (r @ c # b) = takeWhile P r"
  by (induction r) simp_all

lemma dropWhile_stop: "\<not> P c \<Longrightarrow> dropWhile P (r @ c # b) = dropWhile P r @ c # b"
  by (induction r) simp_all

lemma words_blank: "dropWhile isspace s = [] \<Longrightarrow> words s = []"
  by (subst words.simps) (simp del: dropWhile_eq_Nil_conv)

lemma words_first:
  "dropWhile isspace s = x # r \<Longrightarrow>
     words s = (x # takeWhile (\<lambda>c. \<not> isspace c) r) # words (dropWhile (\<lambda>c. \<not> isspace c) r)"
  by (subst words.simps) simp

lemma words_Nil [simp]: "words [] = []"
  by (simp add: words_blank)

lemma words_lstrip: "words (dropWhile isspace s) = words s"
proof (cases "dropWhile isspace s")
  case Nil
  then show ?thesis by (simp add: words_blank del: dropWhile_eq_Nil_conv)
next
  case (Cons x r)
  moreover from Cons have "dropWhile isspace (dropWhile isspace s) = x # r"
    by (metis dropWhile_idem)
  ultimately show ?thesis by (simp add: words_first)
qed

lemma words_space_Cons: "isspace c \<Longrightarrow> words (c # s) = words s"
  using words_lstrip [of "c # s"] words_lstrip [of s] by simp

lemma words_eq_Nil: "words s = [] \<longleftrightarrow> (\<forall>c \<in> set s. isspace c)"
proof (cases "dropWhile isspace s")
  case Nil
  then show ?thesis by (simp add: words_blank)
next
  case (Cons x r)
  then have "words s \<noteq> []" by (simp add: words_first)
  moreover from Cons have "\<not> (\<forall>c \<in> set s. isspace c)"
    by (metis dropWhile_eq_Nil_conv list.distinct(1))
  ultimately show ?thesis by simp
qed

lemma words_append_space:
  "isspace c \<Longrightarrow> words (a @ c # b) = words a @ words b"
proof (induction a rule: length_induct)
  case (1 a)
  show ?case
  proof (cases "dropWhile isspace a")
    case Nil
    then have all: "\<forall>x \<in> set a. isspace x" by simp
    then have "dropWhile isspace (a @ c # b) = dropWhile isspace (c # b)"
      by (simp add: dropWhile_append2)
    then have "words (a @ c # b) = words (c # b)"
      by (metis words_lstrip)
    with 1(2) Nil show ?thesis
      by (simp add: words_space_Cons words_blank del: dropWhile_eq_Nil_conv)
  next
    case (Cons x r)
    let ?rest = "dropWhile (\<lambda>c. \<not> isspace c) r"
    from Cons have "\<not> (\<forall>y \<in> set a. isspace y)"
      by (metis dropWhile_eq_Nil_conv list.distinct(1))
    then have "dropWhile isspace (a @ c # b) = dropWhile isspace a @ c # b"
      by (metis dropWhile_append1)
    with Cons have d: "dropWhile isspace (a @ c # b) = x # (r @ c # b)"
      by simp
    have "length (dropWhile isspace a) \<le> length a"
      by (rule length_dropWhile_le)
    moreover have "length ?rest \<le> length r"
      by (rule length_dropWhile_le)
    ultimately have "length ?rest < length a"
      using Cons by simp
    with 1 have ih: "words (?rest @ c # b) = words ?rest @ words b"
      by blast
    from 1(2) have "\<not> (\<lambda>c. \<not> isspace c) c" by simp
    then have "takeWhile (\<lambda>c. \<not> isspace c) (r @ c # b) = takeWhile (\<lambda>c. \<not> isspace c) r"
      and "dropWhile (\<lambda>c. \<not> isspace c) (r @ c # b) = ?rest @ c # b"
      by (rule takeWhile_stop, rule dropWhile_stop)
    with ih show ?thesis
      by (simp add: words_first [OF d] words_first [OF Cons])
  qed
qed

lemma words_join:
  "isspace c \<Longrightarrow> words (join [c] xs) = concat (map words xs)"
  by (induction "[c]" xs rule: join.induct) (simp_all add: words_append_space)

lemma words_single:
  "w \<noteq> [] \<Longrightarrow> \<forall>c \<in> set w. \<not> isspace c \<Longrightarrow> words w = [w]"
proof -
  assume ne: "w \<noteq> []" and ns: "\<forall>c \<in> set w. \<not> isspace c"
  from ne obtain x r where w: "w = x # r" by (cases w) auto
  with ns have d: "dropWhile isspace w = x # r" by simp
  from w ns have "takeWhile (\<lambda>c. \<not> isspace c) r = r" "dropWhile (\<lambda>c. \<not> isspace c) r = []"
    by simp_all
  with words_first [OF d] w show ?thesis by simp
qed

lemma words_good:
  "w \<in> set (words s) \<Longrightarrow> w \<noteq> [] \<and> (\<forall>c \<in> set w. \<not> isspace c)"
proof (induction s arbitrary: w rule: length_induct)
  case (1 s)
  show ?case
  proof (cases "dropWhile isspace s")
    case Nil
    with 1(2) show ?thesis by (simp add: words_blank del: dropWhile_eq_Nil_conv)
  next
    case (Cons x r)
    let ?rest = "dropWhile (\<lambda>c. \<not> isspace c) r"
    have "length (dropWhile isspace s) \<le> length s"
      by (rule length_dropWhile_le)
    moreover have "length ?rest \<le> length r"
      by (rule length_dropWhile_le)
    ultimately have l: "length ?rest < length s"
      using Cons by simp
    have "\<not> isspace x"
      using Cons by (metis hd_dropWhile list.distinct(1) list.sel(1))
    moreover have "\<forall>c \<in> set (takeWhile (\<lambda>c. \<not> isspace c) r). \<not> isspace c"
      by (auto dest: set_takeWhileD)
    ultimately have first: "\<forall>c \<in> set (x # takeWhile (\<lambda>c. \<not> isspace c) r). \<not> isspace c"
      by simp
    from 1(2) have "w = x # takeWhile (\<lambda>c. \<not> isspace c) r \<or> w \<in> set (words ?rest)"
      by (simp add: words_first [OF Cons])
    with first 1(1) l show ?thesis by blast
  qed
qed

subsection \<open>Stripping, collapsing and splitting keep the words\<close>

lemma re_sub_plus_delete: "re_sub_plus P [] s = filter (\<lambda>c. \<not> P c) s"
proof (induction P "[] :: ustring" s rule: re_sub_plus.induct)
  case (1 P)
  show ?case by simp
next
  case (2 P c s)
  have "filter (\<lambda>c. \<not> P c) (dropWhile P s) = filter (\<lambda>c. \<not> P c) s"
    by (induction s) simp_all
  with 2 show ?case by simp
qed

lemma re_sub_plus_word:
  "\<forall>c \<in> set w. \<not> P c \<Longrightarrow> re_sub_plus P repl (w @ s) = w @ re_sub_plus P repl s"
  by (induction w) simp_all

lemma words_append_blank:
  "\<forall>c \<in> set ws. isspace c \<Longrightarrow> words (a @ ws) = words a"
proof (cases ws)
  case Nil
  then show ?thesis by simp
next
  case (Cons c r)
  assume "\<forall>c \<in> set ws. isspace c"
  with Cons have "isspace c" and "words r = []"
    by (simp_all add: words_eq_Nil)
  with Cons show ?thesis
    by (simp add: words_append_space)
qed

lemma rstrip_split: "\<exists>ws. s = rstrip s @ ws \<and> (\<forall>c \<in> set ws. isspace c)"
proof -
  have "rev s = takeWhile isspace (rev s) @ dropWhile isspace (rev s)"
    by simp
  then have "s = rev (dropWhile isspace (rev s)) @ rev (takeWhile isspace (rev s))"
    by (metis rev_append rev_rev_ident)
  moreover have "\<forall>c \<in> set (rev (takeWhile isspace (rev s))). isspace c"
    by (auto dest: set_takeWhileD)
  ultimately show ?thesis
    unfolding rstrip_def by blast
qed

lemma words_rstrip: "words (rstrip s) = words s"
  by (metis rstrip_split words_append_blank)

lemma words_strip: "words (strip s) = words s"
  by (simp add: strip_def lstrip_def words_rstrip words_lstrip)

lemma strip_eq_Nil: "strip s = [] \<longleftrightarrow> words s = []"
proof
  assume "strip s = []"
  then have "words (strip s) = []" by simp
  then show "words s = []" by (simp add: words_strip)
next
  assume "words s = []"
  then have "\<forall>c \<in> set s. isspace c" by (simp add: words_eq_Nil)
  then show "strip s = []" by (rule strip_blank)
qed

lemma last_dropWhile: "dropWhile P xs \<noteq> [] \<Longrightarrow> last (dropWhile P xs) = last xs"
  by (metis last_appendR takeWhile_dropWhile_id)

lemma strip_ends:
  assumes "strip s \<noteq> []"
  shows "\<not> isspace (hd (strip s)) \<and> \<not> isspace (last (strip s))"
proof -
  let ?t = "dropWhile isspace s"
  let ?u = "dropWhile isspace (rev ?t)"
  from assms have u: "?u \<noteq> []"
    by (simp add: strip_def lstrip_def rstrip_def del: dropWhile_eq_Nil_conv)
  have t: "?t \<noteq> []"
  proof
    assume "?t = []"
    then have "?u = []" by (simp only: rev.simps dropWhile.simps)
    with u show False by contradiction
  qed
  have "last (strip s) = hd ?u"
    using u by (simp add: strip_def lstrip_def rstrip_def last_rev)
  moreover have "\<not> isspace (hd ?u)"
    using u by (rule hd_dropWhile)
  moreover have "hd (strip s) = last ?u"
    using u by (simp add: strip_def lstrip_def rstrip_def hd_rev)
  moreover have "last ?u = last (rev ?t)"
    using u by (rule last_dropWhile)
  moreover have "last (rev ?t) = hd ?t"
    using t by (simp add: last_rev)
  moreover have "\<not> isspace (hd ?t)"
    using t by (rule hd_dropWhile)
  ultimately show ?thesis by simp
qed

lemma collapse_trimmed:
  "s \<noteq> [] \<longrightarrow> \<not> isspace (hd s) \<and> \<not> isspace (last s) \<Longrightarrow>
     re_sub_plus isspace [0x20] s = join [0x20] (words s)"
proof (induction s rule: length_induct)
  case (1 s)
  show ?case
  proof (cases s)
    case Nil
    then show ?thesis by simp
  next
    case (Cons x r)
    let ?w = "x # takeWhile (\<lambda>c. \<not> isspace c) r"
    let ?rest = "dropWhile (\<lambda>c. \<not> isspace c) r"
    from 1(2) Cons have x: "\<not> isspace x" and e: "\<not> isspace (last s)"
      by simp_all
    from x Cons have d: "dropWhile isspace s = x # r" by simp
    have w: "\<forall>c \<in> set ?w. \<not> isspace c"
      using x by (auto dest: set_takeWhileD)
    have s: "s = ?w @ ?rest"
      using Cons by simp
    have ws: "words s = ?w # words ?rest"
      by (rule words_first [OF d])
    have c: "re_sub_plus isspace [0x20] s = ?w @ re_sub_plus isspace [0x20] ?rest"
      by (subst s) (rule re_sub_plus_word [OF w])
    show ?thesis
    proof (cases ?rest)
      case Nil
      with c ws show ?thesis by simp
    next
      case rest: (Cons y r')
      let ?s2 = "dropWhile isspace r'"
      have y: "isspace y"
        using hd_dropWhile [of "\<lambda>c. \<not> isspace c" r] rest by simp
      have s2: "?s2 \<noteq> []"
      proof
        assume "?s2 = []"
        then have "\<forall>c \<in> set r'. isspace c" by simp
        with y rest have "\<forall>c \<in> set ?rest. isspace c" by simp
        moreover from rest s have "last s = last ?rest"
          by (metis last_appendR list.distinct(1))
        moreover from rest have "last ?rest \<in> set ?rest"
          by (metis last_in_set list.distinct(1))
        ultimately show False using e by metis
      qed
      have h: "\<not> isspace (hd ?s2)"
        using s2 by (rule hd_dropWhile)
      have "last ?s2 = last r'"
        using s2 by (rule last_dropWhile)
      moreover from s2 have "r' \<noteq> []" by auto
      ultimately have "last ?s2 = last s"
        using s rest by (metis last_ConsR last_appendR list.distinct(1))
      with e h have tr: "?s2 \<noteq> [] \<longrightarrow> \<not> isspace (hd ?s2) \<and> \<not> isspace (last ?s2)"
        by simp
      have "length ?s2 \<le> length r'"
        by (rule length_dropWhile_le)
      moreover have "length ?rest \<le> length r"
        by (rule length_dropWhile_le)
      ultimately have "length ?s2 < length s"
        using rest Cons by simp
      with 1(1) tr have ih: "re_sub_plus isspace [0x20] ?s2 = join [0x20] (words ?s2)"
        by blast
      have w2: "words ?rest = words ?s2"
        using y rest by (simp add: words_space_Cons words_lstrip)
      from s2 h have "words ?s2 \<noteq> []"
        by (metis hd_in_set words_eq_Nil)
      then obtain v vs where v: "words ?s2 = v # vs"
        by (cases "words ?s2") auto
      from rest y have "re_sub_plus isspace [0x20] ?rest = 0x20 # re_sub_plus isspace [0x20] ?s2"
        by simp
      with c ih ws w2 v show ?thesis by simp
    qed
  qed
qed

lemma collapse_strip:
  "re_sub_plus isspace [0x20] (strip l) = join [0x20] (words l)"
  using collapse_trimmed [of "strip l"] strip_ends [of l] by (simp add: words_strip)

lemma clean_lines_words:
  "clean_lines ls = map (\<lambda>l. join [0x20] (words l)) (filter (\<lambda>l. words l \<noteq> []) ls)"
  by (induction ls) (simp_all add: Let_def strip_eq_Nil collapse_strip)

lemma words_join_words: "words (join [0x20] (words l)) = words l"
proof -
  have "isspace 0x20" by (simp add: isspace_def)
  then have "words (join [0x20] (words l)) = concat (map words (words l))"
    by (rule words_join)
  moreover have "map words (words l) = map (\<lambda>w. [w]) (words l)"
    by (rule map_cong) (auto dest: words_good intro: words_single)
  ultimately show ?thesis by simp
qed

lemma concat_words_clean_lines:
  "concat (map words (clean_lines ls)) = concat (map words ls)"
  by (induction ls) (simp_all add: clean_lines_words words_join_words)

lemma words_splitlines: "concat (map words (splitlines s)) = words s"
proof (induction s rule: length_induct)
  case (1 s)
  let ?t = "takeWhile (\<lambda>c. \<not> is_linebreak c) s"
  let ?d = "dropWhile (\<lambda>c. \<not> is_linebreak c) s"
  have s: "s = ?t @ ?d" by simp
  have len: "length ?d \<le> length s"
    by (rule length_dropWhile_le)
  have br: "?d \<noteq> [] \<Longrightarrow> isspace (hd ?d)"
    using hd_dropWhile [of "\<lambda>c. \<not> is_linebreak c" s] by (auto intro: linebreak_isspace)
  consider "s = []" | "s \<noteq> []" "?d = [] \<or> (\<exists>c. ?d = [c])" | c d r where "?d = c # d # r"
    by (rule list_cases3 [of ?d]) blast+
  then show ?case
  proof cases
    case 1
    then show ?thesis by simp
  next
    case 2
    then have l: "splitlines s = [?t]" by (rule splitlines_end)
    from 2(2) show ?thesis
    proof
      assume "?d = []"
      with s l show ?thesis by simp
    next
      assume "\<exists>c. ?d = [c]"
      then obtain c where c: "?d = [c]" by blast
      with br have "isspace c" by simp
      then have "words (?t @ c # []) = words ?t @ words []"
        by (rule words_append_space)
      with s c l show ?thesis by simp
    qed
  next
    case 3
    from 3 br have c: "isspace c" by simp
    from 3 len have lr: "length r < length s" "length (d # r) < length s"
      by simp_all
    with "1.IH" have ih: "concat (map words (splitlines r)) = words r"
      "concat (map words (splitlines (d # r))) = words (d # r)"
      by blast+
    from c have "words (?t @ c # d # r) = words ?t @ words (d # r)"
      by (rule words_append_space)
    with s 3 have w: "words s = words ?t @ words (d # r)"
      by simp
    show ?thesis
    proof (cases "c = 0x0D \<and> d = 0x0A")
      case True
      then have "isspace d" by (simp add: isspace_def)
      then have "words (d # r) = words r" by (rule words_space_Cons)
      with True w ih show ?thesis
        by (simp add: splitlines_step [OF 3])
    next
      case False
      with w ih show ?thesis
        by (auto simp: splitlines_step [OF 3])
    qed
  qed
qed

lemma words_cleaned:
  "words (join [0x0A] (clean_lines (splitlines s))) = words s"
proof -
  have "isspace 0x0A" by (simp add: isspace_def)
  then have "words (join [0x0A] (clean_lines (splitlines s))) =
             concat (map words (clean_lines (splitlines s)))"
    by (rule words_join)
  then show ?thesis
    by (simp add: concat_words_clean_lines words_splitlines)
qed

subsection \<open>Lowercasing and the fold key word by word\<close>

lemma lower_filter_space:
  assumes "lower_keeps_whitespace U" and "isspace c"
  shows "filter (\<lambda>c. \<not> isspace c \<and> Q c) (str_lower U (a @ c # b)) =
         filter (\<lambda>c. \<not> isspace c \<and> Q c) (str_lower U a) @
         filter (\<lambda>c. \<not> isspace c \<and> Q c) (str_lower U b)"
  using assms by (simp add: lower_keeps_whitespace_def)

lemma lower_filter_blank_prefix:
  assumes "lower_keeps_whitespace U" and "\<forall>c \<in> set p. isspace c"
  shows "filter (\<lambda>c. \<not> isspace c \<and> Q c) (str_lower U (p @ t)) =
         filter (\<lambda>c. \<not> isspace c \<and> Q c) (str_lower U t)"
  using assms(2)
proof (induction p)
  case Nil
  show ?case by simp
next
  case (Cons c p)
  then have "isspace c" by simp
  from lower_filter_space [OF assms(1) this, of Q "[]" "p @ t"] assms(1) Cons
  show ?case by (simp add: lower_keeps_whitespace_def)
qed

lemma lower_filter_words:
  assumes "lower_keeps_whitespace U"
  shows "filter (\<lambda>c. \<not> isspace c \<and> Q c) (str_lower U s) =
         concat (map (\<lambda>w. filter (\<lambda>c. \<not> isspace c \<and> Q c) (str_lower U w)) (words s))"
proof (induction s rule: length_induct)
  case (1 s)
  let ?G = "\<lambda>s. filter (\<lambda>c. \<not> isspace c \<and> Q c) (str_lower U s)"
  let ?p = "takeWhile isspace s"
  have s: "s = ?p @ dropWhile isspace s" by simp
  have p: "\<forall>c \<in> set ?p. isspace c"
    by (auto dest: set_takeWhileD)
  have drop: "?G s = ?G (dropWhile isspace s)"
    by (subst s) (rule lower_filter_blank_prefix [OF assms p])
  show ?case
  proof (cases "dropWhile isspace s")
    case Nil
    with drop assms show ?thesis
      by (simp add: words_blank lower_keeps_whitespace_def del: dropWhile_eq_Nil_conv)
  next
    case (Cons x r)
    let ?w = "x # takeWhile (\<lambda>c. \<not> isspace c) r"
    let ?rest = "dropWhile (\<lambda>c. \<not> isspace c) r"
    have ws: "words s = ?w # words ?rest"
      by (rule words_first [OF Cons])
    have xr: "x # r = ?w @ ?rest" by simp
    have "length (dropWhile isspace s) \<le> length s"
      by (rule length_dropWhile_le)
    moreover have "length ?rest \<le> length r"
      by (rule length_dropWhile_le)
    ultimately have l: "length ?rest < length s"
      using Cons by simp
    show ?thesis
    proof (cases ?rest)
      case Nil
      with drop Cons ws xr show ?thesis by simp
    next
      case rest: (Cons d r')
      have d: "isspace d"
        using hd_dropWhile [of "\<lambda>c. \<not> isspace c" r] rest by simp
      from l rest have "length r' < length s" by simp
      with 1 have ih: "?G r' = concat (map ?G (words r'))" by blast
      from d rest have "words ?rest = words r'"
        by (simp add: words_space_Cons)
      moreover have "?G (?w @ d # r') = ?G ?w @ ?G r'"
        by (rule lower_filter_space [OF assms d])
      ultimately show ?thesis
        using drop Cons ws xr rest ih by simp
    qed
  qed
qed

lemma lower_filter_same_words:
  assumes "lower_keeps_whitespace U" and "words s = words s'"
  shows "filter (\<lambda>c. \<not> isspace c \<and> Q c) (str_lower U s) =
         filter (\<lambda>c. \<not> isspace c \<and> Q c) (str_lower U s')"
  using lower_filter_words [OF assms(1), of Q s] lower_filter_words [OF assms(1), of Q s'] assms(2)
  by simp

subsection \<open>The cleaned text holds no key of the punctuation table\<close>

lemma punct_values_free:
  "(k, r) \<in> set PUNCT_TRANSLATION \<Longrightarrow> c \<in> set r \<Longrightarrow> c \<notin> fst ` set PUNCT_TRANSLATION"
  by (auto simp: PUNCT_TRANSLATION_def)

lemma translate_punct_free:
  "c \<in> set (translate PUNCT_TRANSLATION s) \<Longrightarrow> c \<notin> fst ` set PUNCT_TRANSLATION"
proof -
  assume "c \<in> set (translate PUNCT_TRANSLATION s)"
  then obtain x where x: "x \<in> set s"
    and c: "c \<in> set (case map_of PUNCT_TRANSLATION x of Some r \<Rightarrow> r | None \<Rightarrow> [x])"
    by (auto simp: translate_def)
  show ?thesis
  proof (cases "map_of PUNCT_TRANSLATION x")
    case None
    with c have "c = x" by simp
    with None show ?thesis by (simp add: map_of_eq_None_iff)
  next
    case (Some r)
    then have "(x, r) \<in> set PUNCT_TRANSLATION" by (rule map_of_SomeD)
    moreover from Some c have "c \<in> set r" by simp
    ultimately show ?thesis by (rule punct_values_free)
  qed
qed

lemma re_sub_plus_chars: "set (re_sub_plus P repl s) \<subseteq> set s \<union> set repl"
proof (induction P repl s rule: re_sub_plus.induct)
  case (1 P repl)
  show ?case by simp
next
  case (2 P repl c s)
  have "set (dropWhile P s) \<subseteq> set s"
    by (auto dest: set_dropWhileD)
  with 2 show ?case by auto
qed

lemma strip_chars: "set (strip s) \<subseteq> set s"
proof -
  have "set (strip s) \<subseteq> set (dropWhile isspace s)"
    unfolding strip_def lstrip_def rstrip_def by (auto dest: set_dropWhileD)
  then show ?thesis by (auto dest: set_dropWhileD)
qed

lemma clean_lines_chars:
  "l \<in> set (clean_lines ls) \<Longrightarrow> c \<in> set l \<Longrightarrow> c = 0x20 \<or> (\<exists>k \<in> set ls. c \<in> set k)"
proof (induction ls)
  case Nil
  then show ?case by simp
next
  case (Cons k ls)
  show ?case
  proof (cases "l = re_sub_plus isspace [0x20] (strip k)")
    case True
    with Cons.prems(2) have "c \<in> set (strip k) \<union> set [0x20]"
      using re_sub_plus_chars by blast
    then have "c = 0x20 \<or> c \<in> set k"
      using strip_chars by auto
    then show ?thesis by auto
  next
    case False
    with Cons.prems(1) have "l \<in> set (clean_lines ls)"
      by (simp add: Let_def split: if_splits)
    with Cons.IH Cons.prems(2) show ?thesis by auto
  qed
qed

lemma join_chars: "c \<in> set (join sep xs) \<Longrightarrow> c \<in> set sep \<or> (\<exists>x \<in> set xs. c \<in> set x)"
  by (induction sep xs rule: join.induct) auto

lemma cleaned_punct_free:
  assumes "c \<in> set (join [0x0A] (clean_lines (splitlines (translate PUNCT_TRANSLATION y))))"
  shows "c \<notin> fst ` set PUNCT_TRANSLATION"
proof -
  let ?T = "translate PUNCT_TRANSLATION y"
  from join_chars [OF assms] have
    "c = 0x0A \<or> (\<exists>l \<in> set (clean_lines (splitlines ?T)). c \<in> set l)"
    by simp
  then have "c = 0x0A \<or> c = 0x20 \<or> (\<exists>k \<in> set (splitlines ?T). c \<in> set k)"
    using clean_lines_chars by blast
  then have "c = 0x0A \<or> c = 0x20 \<or> c \<in> set ?T"
    using splitlines_chars by blast
  then show ?thesis
  proof (elim disjE)
    assume "c = 0x0A"
    then show ?thesis by (simp add: PUNCT_TRANSLATION_def)
  next
    assume "c = 0x20"
    then show ?thesis by (simp add: PUNCT_TRANSLATION_def)
  next
    assume "c \<in> set ?T"
    then show ?thesis by (rule translate_punct_free)
  qed
qed

lemma clean_text_punct_free:
  assumes "lower_adds_no_punct U"
  shows "translate PUNCT_TRANSLATION (clean_text U x) = clean_text U x"
proof (cases "x = []")
  case True
  then show ?thesis by (simp add: clean_text_def translate_def)
next
  case False
  let ?J = "join [0x0A] (clean_lines (splitlines (translate PUNCT_TRANSLATION (normalize_nfkc U x))))"
  have "\<forall>c \<in> set ?J. c \<notin> fst ` set PUNCT_TRANSLATION"
    using cleaned_punct_free by blast
  with assms have "\<forall>c \<in> set (str_lower U ?J). c \<notin> fst ` set PUNCT_TRANSLATION"
    unfolding lower_adds_no_punct_def by blast
  then have "translate PUNCT_TRANSLATION (str_lower U ?J) = str_lower U ?J"
    by (rule translate_no_punct)
  with False show ?thesis
    by (simp add: clean_text_def Let_def)
qed

subsection \<open>The fold key after cleaning\<close>

text \<open>
  Claim C10 fails on the code. The text is \<open>J\<close> followed by a combining caron. Its fold
  key is \<open>j\<close>: NFKC leaves the two characters apart, and the caron is not a word
  character. Its cleaned text is \<open>j\<close> followed by the caron, which NFKC composes to
  U+01F0, a letter: the fold key of the cleaned text is U+01F0.
\<close>

theorem fold_key_after_cleaning_counterexample:
  "normalize_for_match unicode_fragment (clean_text unicode_fragment [0x4A, 0x30C]) \<noteq>
   normalize_for_match unicode_fragment [0x4A, 0x30C]"
  by (simp add: text_eval)

text \<open>
  Claim C10 as the code has it: the fold key of the cleaned text is the fold key of the
  raw text whenever the cleaned text is in NFKC form, that is, whenever the lowercasing
  at the end of \<open>clean_text\<close> has not produced anything that NFKC would still change.
\<close>

theorem fold_key_after_cleaning:
  assumes "lower_keeps_whitespace U" and "lower_idempotent U" and "lower_adds_no_punct U"
    and "normalize_nfkc U (clean_text U x) = clean_text U x"
  shows "normalize_for_match U (clean_text U x) = normalize_for_match U x"
proof (cases "x = []")
  case True
  then show ?thesis by (simp add: clean_text_def)
next
  case False
  let ?T = "translate PUNCT_TRANSLATION (normalize_nfkc U x)"
  let ?J = "join [0x0A] (clean_lines (splitlines ?T))"
  let ?K = "\<lambda>c. \<not> isspace c \<and> re_word U c"
  from False have C: "clean_text U x = str_lower U ?J"
    by (simp add: clean_text_def Let_def)
  have "normalize_for_match U (clean_text U x) =
        filter ?K (str_lower U (translate PUNCT_TRANSLATION (normalize_nfkc U (clean_text U x))))"
    by (simp add: normalize_for_match_def Let_def re_sub_plus_delete)
  also have "\<dots> = filter ?K (str_lower U (clean_text U x))"
    by (simp only: assms(4) clean_text_punct_free [OF assms(3)])
  also have "\<dots> = filter ?K (str_lower U ?J)"
    using assms(2) by (simp add: C lower_idempotent_def)
  also have "\<dots> = filter ?K (str_lower U ?T)"
    by (rule lower_filter_same_words [OF assms(1)]) (rule words_cleaned)
  also have "\<dots> = normalize_for_match U x"
    by (simp add: normalize_for_match_def Let_def re_sub_plus_delete)
  finally show ?thesis .
qed

lemma ascii_lower_space: "isspace c \<Longrightarrow> ascii_lower c = c"
  by (auto simp: isspace_def ascii_lower_def)

lemma fragment_lower_keeps_whitespace: "lower_keeps_whitespace unicode_fragment"
  by (simp add: lower_keeps_whitespace_def unicode_fragment_def ascii_lower_space)

lemma fragment_lower_idempotent: "lower_idempotent unicode_fragment"
  by (simp add: lower_idempotent_def unicode_fragment_def ascii_lower_def)

lemma ascii_lower_punct:
  "ascii_lower c \<in> fst ` set PUNCT_TRANSLATION \<Longrightarrow> c \<in> fst ` set PUNCT_TRANSLATION"
  by (cases "0x41 \<le> c \<and> c \<le> 0x5A") (auto simp: ascii_lower_def PUNCT_TRANSLATION_def)

lemma fragment_lower_adds_no_punct: "lower_adds_no_punct unicode_fragment"
  unfolding lower_adds_no_punct_def unicode_fragment_def
  using ascii_lower_punct by auto

text \<open>
  C10 at a text of two lines with a tab, a blank line, surrounding spaces, capitals and an
  ideographic full stop.
\<close>

theorem fold_key_after_cleaning_witness:
  "lower_keeps_whitespace unicode_fragment \<and> lower_idempotent unicode_fragment \<and>
   lower_adds_no_punct unicode_fragment \<and>
   normalize_nfkc unicode_fragment
     (clean_text unicode_fragment [0x20, 0x48, 0x69, 0x09, 0x41, 0x3002, 0x0A, 0x0A, 0x62, 0x20])
     = clean_text unicode_fragment [0x20, 0x48, 0x69, 0x09, 0x41, 0x3002, 0x0A, 0x0A, 0x62, 0x20] \<and>
   normalize_for_match unicode_fragment
     (clean_text unicode_fragment [0x20, 0x48, 0x69, 0x09, 0x41, 0x3002, 0x0A, 0x0A, 0x62, 0x20])
     = normalize_for_match unicode_fragment [0x20, 0x48, 0x69, 0x09, 0x41, 0x3002, 0x0A, 0x0A, 0x62, 0x20]"
proof -
  let ?x = "[0x20, 0x48, 0x69, 0x09, 0x41, 0x3002, 0x0A, 0x0A, 0x62, 0x20] :: ustring"
  have c: "clean_text unicode_fragment ?x = [0x68, 0x69, 0x20, 0x61, 0x2E, 0x0A, 0x62]"
    by (simp add: text_eval)
  have n: "normalize_nfkc unicode_fragment (clean_text unicode_fragment ?x) = clean_text unicode_fragment ?x"
    unfolding c by (simp add: unicode_fragment_def)
  from fold_key_after_cleaning [OF fragment_lower_keeps_whitespace fragment_lower_idempotent
      fragment_lower_adds_no_punct n]
    fragment_lower_keeps_whitespace fragment_lower_idempotent fragment_lower_adds_no_punct n
  show ?thesis by blast
qed

subsection \<open>Inserted whitespace and the fold key\<close>

lemma ws_inserted_filter:
  "ws_inserted a b \<Longrightarrow>
     filter (\<lambda>c. \<not> isspace c \<and> Q c) b = filter (\<lambda>c. \<not> isspace c \<and> Q c) a"
proof (induction a b rule: ws_inserted.induct)
  case (1 t')
  then show ?case
    by (induction t') simp_all
next
  case (2 c t)
  then show ?case by simp
next
  case (3 c t d t')
  then show ?case by auto
qed

text \<open>
  Claim C7 fails on the code. The keyword is U+01F0, the text is \<open>j\<close> followed by a
  combining caron, and the text with whitespace inserted has a space between the two. NFKC
  composes the pair to U+01F0 when the two are adjacent, and the keyword fold-matches; with
  the space between them nothing is composed, the caron is dropped as a non-word
  character, the fold key is \<open>j\<close>, and the keyword does not fold-match.
\<close>

theorem whitespace_insensitive_counterexample:
  "ws_inserted [0x6A, 0x30C] [0x6A, 0x20, 0x30C] \<and>
   normalize_for_match unicode_fragment [0x1F0] \<noteq> [] \<and>
   sublist (normalize_for_match unicode_fragment [0x1F0])
     (normalize_for_match unicode_fragment [0x6A, 0x30C]) \<and>
   \<not> sublist (normalize_for_match unicode_fragment [0x1F0])
     (normalize_for_match unicode_fragment [0x6A, 0x20, 0x30C])"
  by (simp add: text_eval sublist_code prefix_code)

text \<open>
  Claim C7 as the code has it. Whitespace inserted into a text does not change which
  keywords fold-match, provided the insertion does not change what NFKC and lowercasing
  do to the other characters: the text after NFKC, the punctuation table and lowercasing
  is then again the old one with whitespace inserted. The fold keys of the two texts
  are equal in that case.
\<close>

theorem whitespace_insensitive:
  assumes "ws_inserted t t'"
    and "ws_inserted (str_lower U (translate PUNCT_TRANSLATION (normalize_nfkc U t)))
           (str_lower U (translate PUNCT_TRANSLATION (normalize_nfkc U t')))"
    and "normalize_for_match U k \<noteq> []"
    and "sublist (normalize_for_match U k) (normalize_for_match U t)"
  shows "sublist (normalize_for_match U k) (normalize_for_match U t')"
proof -
  from ws_inserted_filter [OF assms(2), of "re_word U"]
  have "normalize_for_match U t' = normalize_for_match U t"
    by (simp add: normalize_for_match_def Let_def re_sub_plus_delete)
  with assms(4) show ?thesis by simp
qed

text \<open>
  C7 at the keyword \<open>BC\<close>, the text \<open>ab cd\<close> and the text \<open>a b\<close>, two spaces, \<open>cd\<close>.
\<close>

theorem whitespace_insensitive_witness:
  "ws_inserted [0x61, 0x62, 0x20, 0x63, 0x64] [0x61, 0x20, 0x62, 0x20, 0x20, 0x63, 0x64] \<and>
   normalize_for_match unicode_fragment [0x42, 0x43] \<noteq> [] \<and>
   sublist (normalize_for_match unicode_fragment [0x42, 0x43])
     (normalize_for_match unicode_fragment [0x61, 0x62, 0x20, 0x63, 0x64]) \<and>
   sublist (normalize_for_match unicode_fragment [0x42, 0x43])
     (normalize_for_match unicode_fragment [0x61, 0x20, 0x62, 0x20, 0x20, 0x63, 0x64])"
proof -
  let ?t = "[0x61, 0x62, 0x20, 0x63, 0x64] :: ustring"
  let ?t' = "[0x61, 0x20, 0x62, 0x20, 0x20, 0x63, 0x64] :: ustring"
  have a: "ws_inserted ?t ?t'"
    by (simp add: isspace_def)
  have b: "ws_inserted (str_lower unicode_fragment (translate PUNCT_TRANSLATION (normalize_nfkc unicode_fragment ?t)))
           (str_lower unicode_fragment (translate PUNCT_TRANSLATION (normalize_nfkc unicode_fragment ?t')))"
    by (simp add: text_eval)
  have c: "normalize_for_match unicode_fragment [0x42, 0x43] \<noteq> []"
    by (simp add: text_eval)
  have d: "sublist (normalize_for_match unicode_fragment [0x42, 0x43])
     (normalize_for_match unicode_fragment ?t)"
    by (simp add: text_eval sublist_code prefix_code)
  from whitespace_insensitive [OF a b c d] a c d show ?thesis
    by blast
qed

subsection \<open>The shape of a cleaned text\<close>

lemma lower_join:
  assumes "lower_keeps_whitespace U" and "isspace c"
  shows "str_lower U (join [c] xs) = join [c] (map (str_lower U) xs)"
  using assms
  by (induction "[c]" xs rule: join.induct) (simp_all add: lower_keeps_whitespace_def)

lemma join_not_Nil: "x \<noteq> [] \<Longrightarrow> join sep (x # xs) \<noteq> []"
  by (cases xs) simp_all

lemma splitlines_join:
  "\<forall>l \<in> set ls. l \<noteq> [] \<and> (\<forall>c \<in> set l. \<not> is_linebreak c) \<Longrightarrow>
     splitlines (join [0x0A] ls) = ls"
proof (induction "[0x0A::nat]" ls rule: join.induct)
  case 1
  show ?case by simp
next
  case (2 x)
  then have "x \<noteq> []" and "dropWhile (\<lambda>c. \<not> is_linebreak c) x = []"
    and "takeWhile (\<lambda>c. \<not> is_linebreak c) x = x"
    by simp_all
  then show ?case
    using splitlines_end [of x] by (simp del: dropWhile_eq_Nil_conv takeWhile_eq_all_conv)
next
  case (3 x y ys)
  from 3(2) have x: "\<forall>c \<in> set x. \<not> is_linebreak c" and y: "y \<noteq> []"
    by simp_all
  from y have "join [0x0A] (y # ys) \<noteq> []" by (rule join_not_Nil)
  then obtain d r where dr: "join [0x0A] (y # ys) = d # r"
    by (cases "join [0x0A] (y # ys)") auto
  have nl: "is_linebreak 0x0A" by (simp add: is_linebreak_def)
  from x nl have dw: "dropWhile (\<lambda>c. \<not> is_linebreak c) (x @ 0x0A # d # r) = 0x0A # d # r"
    by (simp add: dropWhile_append2)
  from x nl have tw: "takeWhile (\<lambda>c. \<not> is_linebreak c) (x @ 0x0A # d # r) = x"
    by (simp add: takeWhile_stop)
  from 3 have "splitlines (join [0x0A] (y # ys)) = y # ys"
    by simp
  with splitlines_step [OF dw] tw dr show ?case
    by simp
qed

lemma words_join_good:
  assumes "good_words ws"
  shows "words (join [0x20] ws) = ws"
proof -
  have "isspace 0x20" by (simp add: isspace_def)
  then have "words (join [0x20] ws) = concat (map words ws)"
    by (rule words_join)
  moreover from assms have "map words ws = map (\<lambda>w. [w]) ws"
    by (intro map_cong) (auto simp: good_words_def intro: words_single)
  ultimately show ?thesis by simp
qed

lemma good_line:
  assumes "good_words ws"
  shows "join [0x20] ws \<noteq> [] \<and> (\<forall>c \<in> set (join [0x20] ws). \<not> is_linebreak c)"
proof
  from assms have "words (join [0x20] ws) \<noteq> []"
    by (simp add: words_join_good good_words_def)
  then show "join [0x20] ws \<noteq> []" by auto
next
  show "\<forall>c \<in> set (join [0x20] ws). \<not> is_linebreak c"
  proof
    fix c
    assume "c \<in> set (join [0x20] ws)"
    then have "c = 0x20 \<or> (\<exists>w \<in> set ws. c \<in> set w)"
      using join_chars by fastforce
    then show "\<not> is_linebreak c"
    proof
      assume "c = 0x20"
      then show ?thesis by (simp add: is_linebreak_def)
    next
      assume "\<exists>w \<in> set ws. c \<in> set w"
      with assms have "\<not> isspace c" by (auto simp: good_words_def)
      then show ?thesis by (auto dest: linebreak_isspace)
    qed
  qed
qed

lemma clean_lines_good:
  "\<forall>ws \<in> set wss. good_words ws \<Longrightarrow>
     clean_lines (map (join [0x20]) wss) = map (join [0x20]) wss"
proof -
  assume g: "\<forall>ws \<in> set wss. good_words ws"
  then have w: "\<forall>ws \<in> set wss. words (join [0x20] ws) = ws \<and> ws \<noteq> []"
    by (auto simp: words_join_good good_words_def)
  then have "filter (\<lambda>l. words l \<noteq> []) (map (join [0x20]) wss) = map (join [0x20]) wss"
    by (simp add: filter_map comp_def)
  moreover from w have "map (\<lambda>l. join [0x20] (words l)) (map (join [0x20]) wss) = map (join [0x20]) wss"
    by (simp add: comp_def)
  ultimately show ?thesis
    by (simp add: clean_lines_words)
qed

lemma cleaned_fixed:
  assumes "\<forall>ws \<in> set wss. good_words ws"
  shows "join [0x0A] (clean_lines (splitlines (join [0x0A] (map (join [0x20]) wss)))) =
         join [0x0A] (map (join [0x20]) wss)"
proof -
  from assms have "\<forall>l \<in> set (map (join [0x20]) wss). l \<noteq> [] \<and> (\<forall>c \<in> set l. \<not> is_linebreak c)"
    using good_line by auto
  then have "splitlines (join [0x0A] (map (join [0x20]) wss)) = map (join [0x20]) wss"
    by (rule splitlines_join)
  with clean_lines_good [OF assms] show ?thesis by simp
qed

lemma cleaned_shape:
  "\<exists>wss. (\<forall>ws \<in> set wss. good_words ws) \<and>
     join [0x0A] (clean_lines (splitlines s)) = join [0x0A] (map (join [0x20]) wss)"
proof -
  let ?wss = "filter (\<lambda>ws. ws \<noteq> []) (map words (splitlines s))"
  have "\<forall>ws \<in> set ?wss. good_words ws"
    using words_good by (auto simp: good_words_def)
  moreover have "clean_lines (splitlines s) = map (join [0x20]) ?wss"
    by (simp add: clean_lines_words filter_map comp_def)
  ultimately show ?thesis by metis
qed

lemma lower_shape:
  assumes "lower_keeps_whitespace U" and "lower_keeps_words U"
    and "\<forall>ws \<in> set wss. good_words ws"
  shows "\<exists>wss'. (\<forall>ws \<in> set wss'. good_words ws) \<and>
     str_lower U (join [0x0A] (map (join [0x20]) wss)) = join [0x0A] (map (join [0x20]) wss')"
proof -
  let ?wss' = "map (map (str_lower U)) wss"
  have sp: "isspace 0x0A" "isspace 0x20"
    by (simp_all add: isspace_def)
  have "str_lower U (join [0x0A] (map (join [0x20]) wss)) =
        join [0x0A] (map (str_lower U) (map (join [0x20]) wss))"
    by (rule lower_join [OF assms(1) sp(1)])
  also have "map (str_lower U) (map (join [0x20]) wss) = map (join [0x20]) ?wss'"
    by (simp add: lower_join [OF assms(1) sp(2)] comp_def)
  finally have "str_lower U (join [0x0A] (map (join [0x20]) wss)) = join [0x0A] (map (join [0x20]) ?wss')" .
  moreover have "\<forall>ws \<in> set ?wss'. good_words ws"
  proof
    fix ws'
    assume "ws' \<in> set ?wss'"
    then obtain ws where ws: "ws \<in> set wss" and e: "ws' = map (str_lower U) ws"
      by auto
    from assms(3) ws have g: "good_words ws" by blast
    have "\<forall>w \<in> set ws. str_lower U w \<noteq> [] \<and> (\<forall>c \<in> set (str_lower U w). \<not> isspace c)"
    proof
      fix w
      assume "w \<in> set ws"
      with g have "w \<noteq> [] \<and> (\<forall>c \<in> set w. \<not> isspace c)"
        by (simp add: good_words_def)
      with assms(2) show "str_lower U w \<noteq> [] \<and> (\<forall>c \<in> set (str_lower U w). \<not> isspace c)"
        unfolding lower_keeps_words_def by blast
    qed
    with g e show "good_words ws'"
      by (simp add: good_words_def)
  qed
  ultimately show ?thesis by blast
qed

subsection \<open>Cleaning twice\<close>

text \<open>
  Claim C6 fails on the code. The text is \<open>J\<close> followed by a combining caron. No capital
  J with caron exists, so NFKC leaves the two characters apart, and the cleaned text is
  \<open>j\<close> followed by the caron. Cleaning that again composes the two to U+01F0.
\<close>

theorem clean_text_idempotent_counterexample:
  "clean_text unicode_fragment (clean_text unicode_fragment [0x4A, 0x30C]) \<noteq>
   clean_text unicode_fragment [0x4A, 0x30C]"
  by (simp add: text_eval)

text \<open>
  Claim C6 as the code has it: cleaning a cleaned text changes nothing whenever the
  cleaned text is in NFKC form, that is, whenever the lowercasing at the end of
  \<open>clean_text\<close> has not produced anything that NFKC would still change.
\<close>

theorem clean_text_idempotent:
  assumes "lower_keeps_whitespace U" and "lower_keeps_words U" and "lower_adds_no_punct U"
    and "lower_idempotent U"
    and "normalize_nfkc U (clean_text U x) = clean_text U x"
  shows "clean_text U (clean_text U x) = clean_text U x"
proof (cases "clean_text U x = []")
  case True
  then show ?thesis by (simp add: clean_text_def)
next
  case False
  then have x: "x \<noteq> []" by (auto simp: clean_text_def)
  let ?J = "join [0x0A] (clean_lines (splitlines (translate PUNCT_TRANSLATION (normalize_nfkc U x))))"
  let ?C = "clean_text U x"
  from x have C: "?C = str_lower U ?J"
    by (simp add: clean_text_def Let_def)
  obtain wss where "\<forall>ws \<in> set wss. good_words ws"
    and "?J = join [0x0A] (map (join [0x20]) wss)"
    using cleaned_shape by blast
  with lower_shape [OF assms(1,2)] C obtain wss' where g: "\<forall>ws \<in> set wss'. good_words ws"
    and s: "?C = join [0x0A] (map (join [0x20]) wss')"
    by metis
  have "join [0x0A] (clean_lines (splitlines ?C)) = ?C"
    unfolding s by (rule cleaned_fixed [OF g])
  moreover have "translate PUNCT_TRANSLATION (normalize_nfkc U ?C) = ?C"
    by (simp only: assms(5) clean_text_punct_free [OF assms(3)])
  ultimately have "clean_text U ?C = str_lower U ?C"
    using False by (simp add: clean_text_def [of U ?C] Let_def)
  also have "\<dots> = ?C"
    using assms(4) by (simp add: C lower_idempotent_def)
  finally show ?thesis .
qed

lemma ascii_lower_not_space: "\<not> isspace c \<Longrightarrow> \<not> isspace (ascii_lower c)"
  by (cases "0x41 \<le> c \<and> c \<le> 0x5A") (auto simp: ascii_lower_def isspace_def)

lemma fragment_lower_keeps_words: "lower_keeps_words unicode_fragment"
  by (auto simp: lower_keeps_words_def unicode_fragment_def ascii_lower_not_space)

text \<open>
  C6 at a text of two lines with a tab, a blank line, surrounding spaces, capitals and an
  ideographic full stop; its cleaned text is \<open>hi a.\<close> and \<open>b\<close> on two lines.
\<close>

theorem clean_text_idempotent_witness:
  "lower_keeps_whitespace unicode_fragment \<and> lower_keeps_words unicode_fragment \<and>
   lower_adds_no_punct unicode_fragment \<and> lower_idempotent unicode_fragment \<and>
   normalize_nfkc unicode_fragment
     (clean_text unicode_fragment [0x20, 0x48, 0x69, 0x09, 0x41, 0x3002, 0x0A, 0x0A, 0x62, 0x20])
     = clean_text unicode_fragment [0x20, 0x48, 0x69, 0x09, 0x41, 0x3002, 0x0A, 0x0A, 0x62, 0x20] \<and>
   clean_text unicode_fragment
     (clean_text unicode_fragment [0x20, 0x48, 0x69, 0x09, 0x41, 0x3002, 0x0A, 0x0A, 0x62, 0x20])
     = clean_text unicode_fragment [0x20, 0x48, 0x69, 0x09, 0x41, 0x3002, 0x0A, 0x0A, 0x62, 0x20] \<and>
   clean_text unicode_fragment [0x20, 0x48, 0x69, 0x09, 0x41, 0x3002, 0x0A, 0x0A, 0x62, 0x20]
     = [0x68, 0x69, 0x20, 0x61, 0x2E, 0x0A, 0x62]"
proof -
  let ?x = "[0x20, 0x48, 0x69, 0x09, 0x41, 0x3002, 0x0A, 0x0A, 0x62, 0x20] :: ustring"
  have c: "clean_text unicode_fragment ?x = [0x68, 0x69, 0x20, 0x61, 0x2E, 0x0A, 0x62]"
    by (simp add: text_eval)
  have n: "normalize_nfkc unicode_fragment (clean_text unicode_fragment ?x) = clean_text unicode_fragment ?x"
    unfolding c by (simp add: unicode_fragment_def)
  from clean_text_idempotent [OF fragment_lower_keeps_whitespace fragment_lower_keeps_words
      fragment_lower_adds_no_punct fragment_lower_idempotent n]
    fragment_lower_keeps_whitespace fragment_lower_keeps_words
    fragment_lower_adds_no_punct fragment_lower_idempotent n c
  show ?thesis by blast
qed

end
